theory Spec2Isabelle
  imports Complex_Main "HOL-Library.AList"
begin

section \<open>JavaScript values\<close>

text \<open>
  A JavaScript number is \<open>NaN\<close>, one of the two infinities or a finite value. A finite
  value is a rational; the finite values a computation meets are doubles, and the rounding
  that keeps them so is the built-in \<open>RoundToDouble\<close> below. The two zeros are one value.
  A string is a list of 8-bit code units.
\<close>

datatype jsnum = NaN | Fin rat | PosInf | NegInf

datatype jsval = Undefined | Null | Str string | Num jsnum

text \<open>\<open>!x\<close> is \<open>\<not> truthy x\<close>: the falsy values are undefined, null, the empty string, 0 and NaN.\<close>

fun falsy_num :: "jsnum \<Rightarrow> bool" where
  "falsy_num NaN = True"
| "falsy_num (Fin q) = (q = 0)"
| "falsy_num PosInf = False"
| "falsy_num NegInf = False"

fun truthy :: "jsval \<Rightarrow> bool" where
  "truthy Undefined = False"
| "truthy Null = False"
| "truthy (Str s) = (s \<noteq> [])"
| "truthy (Num n) = (\<not> falsy_num n)"

text \<open>
  The built-in conversions between numbers and strings and the rounding of floating point
  arithmetic are parameters of the model: \<open>NumberToString\<close> is \<open>String(n)\<close> on a number,
  \<open>parseFloatStr\<close> is \<open>parseFloat\<close> on a string, \<open>StringToNumber\<close> is \<open>Number(s)\<close> on a
  string, and \<open>RoundToDouble\<close> sends the exact result of an operation to the double nearest
  to it, or to an infinity when it is out of range.
\<close>

record builtins =
  NumberToString :: "jsnum \<Rightarrow> string"
  parseFloatStr :: "string \<Rightarrow> jsnum"
  StringToNumber :: "string \<Rightarrow> jsnum"
  RoundToDouble :: "rat \<Rightarrow> jsnum"

text \<open>\<open>String(v)\<close>.\<close>

fun ToString :: "builtins \<Rightarrow> jsval \<Rightarrow> string" where
  "ToString B Undefined = ''undefined''"
| "ToString B Null = ''null''"
| "ToString B (Str s) = s"
| "ToString B (Num n) = NumberToString B n"

text \<open>\<open>parseFloat(v)\<close> converts its argument to a string first.\<close>

definition parseFloat :: "builtins \<Rightarrow> jsval \<Rightarrow> jsnum" where
  "parseFloat B v = parseFloatStr B (ToString B v)"

subsection \<open>Character classes\<close>

definition is_digit :: "char \<Rightarrow> bool" where
  "is_digit c = (c \<in> set ''0123456789'')"

definition is_upper :: "char \<Rightarrow> bool" where
  "is_upper c = (c \<in> set ''ABCDEFGHIJKLMNOPQRSTUVWXYZ'')"

definition is_lower :: "char \<Rightarrow> bool" where
  "is_lower c = (c \<in> set ''abcdefghijklmnopqrstuvwxyz'')"

definition is_letter :: "char \<Rightarrow> bool" where
  "is_letter c = (is_upper c \<or> is_lower c)"

text \<open>The class \<open>[0-9A-Za-z]\<close>.\<close>

definition is_alnum :: "char \<Rightarrow> bool" where
  "is_alnum c = (is_digit c \<or> is_letter c)"

text \<open>The class \<open>\w\<close>.\<close>

definition is_word :: "char \<Rightarrow> bool" where
  "is_word c = (is_alnum c \<or> c = CHR ''_'')"

text \<open>White space removed by \<open>trim\<close>: tab, line feed, vertical tab, form feed, carriage
  return, space and the no-break space.\<close>

definition is_space :: "char \<Rightarrow> bool" where
  "is_space c = (c \<in> set [CHR 0x09, CHR 0x0A, CHR 0x0B, CHR 0x0C, CHR 0x0D, CHR 0x20, CHR 0xA0])"

definition upper_char :: "char \<Rightarrow> char" where
  "upper_char c =
     (case map_of (zip ''abcdefghijklmnopqrstuvwxyz'' ''ABCDEFGHIJKLMNOPQRSTUVWXYZ'') c of
        Some u \<Rightarrow> u
      | None \<Rightarrow> c)"

definition lower_char :: "char \<Rightarrow> char" where
  "lower_char c =
     (case map_of (zip ''ABCDEFGHIJKLMNOPQRSTUVWXYZ'' ''abcdefghijklmnopqrstuvwxyz'') c of
        Some u \<Rightarrow> u
      | None \<Rightarrow> c)"

text \<open>\<open>toUpperCase\<close> and \<open>toLowerCase\<close> on the ASCII letters.\<close>

definition toUpperCase :: "string \<Rightarrow> string" where
  "toUpperCase s = map upper_char s"

definition toLowerCase :: "string \<Rightarrow> string" where
  "toLowerCase s = map lower_char s"

definition trim :: "string \<Rightarrow> string" where
  "trim s = rev (dropWhile is_space (rev (dropWhile is_space s)))"

text \<open>\<open>s.split(sep)\<close> for a one-character separator: always at least one part.\<close>

fun split_on :: "char \<Rightarrow> string \<Rightarrow> string list" where
  "split_on sep [] = [[]]"
| "split_on sep (c # cs) =
     (if c = sep then [] # split_on sep cs
      else (case split_on sep cs of
              p # ps \<Rightarrow> (c # p) # ps
            | [] \<Rightarrow> [[c]]))"

section \<open>Code normalizer: \<open>getBaseCourseCode\<close>\<close>

text \<open>
  The regular expression \<open>/([A-Z]{4})[- ]?([0-9]{4})/i\<close>. \<open>code_digits\<close> matches the
  second group at the head of a string, \<open>code_match_at\<close> the whole expression at the head
  of a string (the optional separator is tried first, then skipped), and \<open>code_match\<close>
  searches the start positions from left to right. The result is the pair of groups.
\<close>

definition code_digits :: "string \<Rightarrow> string option" where
  "code_digits s =
     (if length (take 4 s) = 4 \<and> list_all is_digit (take 4 s) then Some (take 4 s) else None)"

definition code_match_at :: "string \<Rightarrow> (string \<times> string) option" where
  "code_match_at s =
     (if length (take 4 s) = 4 \<and> list_all is_letter (take 4 s) then
        (case drop 4 s of
           [] \<Rightarrow> None
         | c # cs \<Rightarrow>
             (if c = CHR ''-'' \<or> c = CHR '' '' then
                (case code_digits cs of
                   Some n \<Rightarrow> Some (take 4 s, n)
                 | None \<Rightarrow> map_option (Pair (take 4 s)) (code_digits (c # cs)))
              else map_option (Pair (take 4 s)) (code_digits (c # cs))))
      else None)"

fun code_match :: "string \<Rightarrow> (string \<times> string) option" where
  "code_match [] = None"
| "code_match (c # cs) =
     (case code_match_at (c # cs) of
        Some r \<Rightarrow> Some r
      | None \<Rightarrow> code_match cs)"

definition getBaseCourseCode :: "builtins \<Rightarrow> jsval \<Rightarrow> string" where
  "getBaseCourseCode B raw =
     (if \<not> truthy raw then []
      else (case code_match (ToString B raw) of
              Some (dept, num) \<Rightarrow> toUpperCase dept @ ''-'' @ num
            | None \<Rightarrow>
                (let str = toUpperCase (filter is_alnum (ToString B raw)) in
                 if length str = 8 then take 4 str @ ''-'' @ drop 4 str
                 else if length str = 7 then take 4 str @ ''-'' @ drop 3 str
                 else str)))"

text \<open>
  The shape the regular expression looks for, as the specification words it: four letters,
  an optional hyphen or space, four digits.
\<close>

definition code_pattern :: "string \<Rightarrow> string \<Rightarrow> string \<Rightarrow> bool" where
  "code_pattern d sep n =
     (length d = 4 \<and> list_all is_letter d \<and> (sep = [] \<or> sep = ''-'' \<or> sep = '' '') \<and>
      length n = 4 \<and> list_all is_digit n)"

definition pattern_at :: "string \<Rightarrow> bool" where
  "pattern_at s = (\<exists>d sep n post. s = d @ sep @ n @ post \<and> code_pattern d sep n)"

section \<open>Name resolver: \<open>getLastName\<close>\<close>

text \<open>
  The result is the override, which may be any value, or a string. A split has at least
  one part, so the two cases of an empty split are never reached.
\<close>

definition getLastName :: "jsval \<Rightarrow> jsval \<Rightarrow> jsval" where
  "getLastName fullName lastNameOnly =
     (if truthy lastNameOnly then lastNameOnly
      else (case fullName of
              Str f \<Rightarrow>
                (if trim f = [] then Str []
                 else (let trimmedName = trim f in
                       if CHR '','' \<in> set trimmedName then
                         (case split_on CHR '','' trimmedName of
                            p # ps \<Rightarrow> Str (trim p)
                          | [] \<Rightarrow> Undefined)
                       else (let parts = split_on CHR '' '' trimmedName in
                             case parts of
                               [] \<Rightarrow> Undefined
                             | p # ps \<Rightarrow> Str (last parts))))
            | _ \<Rightarrow> Str []))"

text \<open>
  The resolver as the specification words it, on a full name and an override that are both
  strings: the override if it is non-empty; else the text before the first comma, trimmed;
  else the last of the parts between single spaces; the empty string for a blank name.
\<close>

definition resolveName_spec :: "string \<Rightarrow> string \<Rightarrow> string" where
  "resolveName_spec fullName override =
     (if override \<noteq> [] then override
      else if CHR '','' \<in> set fullName then trim (takeWhile (\<lambda>c. c \<noteq> CHR '','') fullName)
      else if trim fullName = [] then []
      else last (split_on CHR '' '' fullName))"

section \<open>Conflict detector: \<open>checkConflict\<close>\<close>

text \<open>
  \<open>Number(s)\<close> on a string of decimal digits, as a natural number (exact for every
  length of the string).
\<close>

definition digit_val :: "char \<Rightarrow> nat" where
  "digit_val c = of_char c - 48"

definition digits_to_nat :: "string \<Rightarrow> nat" where
  "digits_to_nat ds = foldl (\<lambda>a c. 10 * a + digit_val c) 0 ds"

text \<open>
  The regular expression \<open>/(\d+:\d+)(\w+)/\<close> at the head of a string. The hours are the
  leading digits, which a colon must follow. The minutes take every digit after the colon
  when a word character that is no digit follows them, and the period is then the run of
  word characters; otherwise the last digit is given back to \<open>\w+\<close> and is the period.
  The result is (hours, minutes, period).
\<close>

definition time_match_at :: "string \<Rightarrow> (string \<times> string \<times> string) option" where
  "time_match_at s =
     (let h = takeWhile is_digit s in
      if h = [] then None
      else (case dropWhile is_digit s of
              [] \<Rightarrow> None
            | c # r \<Rightarrow>
                (if c \<noteq> CHR '':'' then None
                 else (let m = takeWhile is_digit r;
                           w = takeWhile is_word (dropWhile is_digit r) in
                       if m = [] then None
                       else if w \<noteq> [] then Some (h, m, w)
                       else if 2 \<le> length m then Some (h, butlast m, [last m])
                       else None))))"

fun time_match :: "string \<Rightarrow> (string \<times> string \<times> string) option" where
  "time_match [] = None"
| "time_match (c # cs) =
     (case time_match_at (c # cs) of
        Some r \<Rightarrow> Some r
      | None \<Rightarrow> time_match cs)"

definition startsWith_ci :: "char \<Rightarrow> string \<Rightarrow> bool" where
  "startsWith_ci c period = (case toLowerCase period of [] \<Rightarrow> False | x # xs \<Rightarrow> x = c)"

definition convertToMinutes :: "string \<Rightarrow> nat" where
  "convertToMinutes t =
     (case time_match t of
        None \<Rightarrow> 0
      | Some (h, m, period) \<Rightarrow>
          (let hours = digits_to_nat h;
               minutes = digits_to_nat m;
               hours1 = (if startsWith_ci CHR ''p'' period \<and> hours \<noteq> 12 then hours + 12 else hours);
               hours2 = (if startsWith_ci CHR ''a'' period \<and> hours1 = 12 then 0 else hours1)
           in hours2 * 60 + minutes))"

text \<open>
  \<open>parseTime\<close> returns the pair (start, end). A string that contains a hyphen splits into
  at least two parts, so the last case of the destructuring is never reached.
\<close>

definition parseTime :: "string \<Rightarrow> nat \<times> nat" where
  "parseTime timeStr =
     (if timeStr = [] \<or> CHR ''-'' \<notin> set timeStr then (0, 0)
      else (case split_on CHR ''-'' timeStr of
              startTime # endTime # rest \<Rightarrow> (convertToMinutes startTime, convertToMinutes endTime)
            | _ \<Rightarrow> (0, 0)))"

section \<open>Catalog records\<close>

text \<open>
  A rating is a number or \<open>null\<close> (\<open>None\<close>). \<open>Days\<close> and \<open>Time\<close> of a section are text or
  absent (\<open>None\<close>), as in the data model; the other cells of a row are any value.
\<close>

record instructor =
  name :: jsval
  Course_Quality :: "jsnum option"
  Instructor_Quality :: "jsnum option"
  Difficulty :: "jsnum option"
  Work_Required :: "jsnum option"

record course_section =
  Session_ID :: jsval
  Meetings :: string
  Days :: "string option"
  Time :: "string option"
  Term :: jsval
  Credits :: jsval
  instructors :: "instructor list"

text \<open>
  A course, with its sections of type \<open>'s\<close>: an object keyed by section id while the
  catalog is built, a list in the finished catalog.
\<close>

record 's course =
  Course_Code :: string
  Title :: jsval
  course_rating :: "jsnum option"
  instructor_rating :: "jsnum option"
  difficulty_rating :: "jsnum option"
  work_rating :: "jsnum option"
  Average_Price :: jsnum
  sections :: 's

text \<open>The finished course adds the joined terms and credits (the fields \<open>Terms\<close> and
  \<open>Credits\<close> of the source).\<close>

record catalog_course = "course_section list course" +
  Terms :: string
  course_Credits :: string

text \<open>
  An entry of the selection list: the fields of the section, the code and price of its
  course and the instructor text (the fields \<open>Course_Code\<close> and \<open>Instructor\<close> of the
  source); then the conflict flag.
\<close>

record chosen = course_section +
  sel_Course_Code :: string
  sel_Instructor :: jsval
  Price :: jsnum

record checked = chosen +
  isConflicting :: bool

text \<open>\<open>!s\<close> on a field that is text or absent.\<close>

fun absent :: "string option \<Rightarrow> bool" where
  "absent None = True"
| "absent (Some s) = (s = [])"

fun text_of :: "string option \<Rightarrow> string" where
  "text_of None = []"
| "text_of (Some s) = s"

definition checkConflict :: "('a course_section_scheme) \<Rightarrow> ('b course_section_scheme) \<Rightarrow> bool" where
  "checkConflict sectionA sectionB =
     (if absent (Days sectionA) \<or> absent (Time sectionA) \<or>
         absent (Days sectionB) \<or> absent (Time sectionB) then False
      else (let daysA = text_of (Days sectionA);
                daysB = text_of (Days sectionB);
                dayConflict = list_ex (\<lambda>day. day \<in> set daysB) daysA
            in if \<not> dayConflict then False
               else (let timeA = parseTime (text_of (Time sectionA));
                         timeB = parseTime (text_of (Time sectionB))
                     in fst timeA < snd timeB \<and> fst timeB < snd timeA)))"

section \<open>Selection list and price aggregator\<close>

definition instructorText :: "course_section \<Rightarrow> jsval" where
  "instructorText s =
     (case instructors s of
        [] \<Rightarrow> Str ''N/A''
      | [i] \<Rightarrow> name i
      | _ \<Rightarrow> Str ''Multiple Instructors'')"

definition entry :: "catalog_course \<Rightarrow> course_section \<Rightarrow> chosen" where
  "entry c s =
     \<lparr>Session_ID = Session_ID s, Meetings = Meetings s, Days = Days s, Time = Time s,
      Term = Term s, Credits = Credits s, instructors = instructors s,
      sel_Course_Code = Course_Code c, sel_Instructor = instructorText s,
      Price = Average_Price c\<rparr>"

text \<open>
  \<open>selectedSessions[id]\<close> enters as the predicate \<open>sel\<close>: whether the lookup is truthy.
  \<open>list\<close> is the array the two nested \<open>forEach\<close> fill.
\<close>

definition selection :: "(jsval \<Rightarrow> bool) \<Rightarrow> catalog_course list \<Rightarrow> chosen list" where
  "selection sel courses =
     concat (map (\<lambda>c. map (entry c) (filter (\<lambda>s. sel (Session_ID s)) (sections c))) courses)"

definition init_checked :: "chosen \<Rightarrow> checked" where
  "init_checked s =
     \<lparr>Session_ID = Session_ID s, Meetings = Meetings s, Days = Days s, Time = Time s,
      Term = Term s, Credits = Credits s, instructors = instructors s,
      sel_Course_Code = sel_Course_Code s, sel_Instructor = sel_Instructor s,
      Price = Price s, isConflicting = False\<rparr>"

definition flag :: "checked \<Rightarrow> checked" where
  "flag s = s\<lparr>isConflicting := True\<rparr>"

text \<open>The inner loop, from \<open>j\<close> on, and the outer loop, from \<open>i\<close> on.\<close>

function inner_loop :: "nat \<Rightarrow> nat \<Rightarrow> checked list \<Rightarrow> checked list" where
  "inner_loop i j checkedList =
     (if j < length checkedList then
        inner_loop i (j + 1)
          (if checkConflict (checkedList ! i) (checkedList ! j) then
             (let l1 = checkedList[i := flag (checkedList ! i)]
              in l1[j := flag (l1 ! j)])
           else checkedList)
      else checkedList)"
  by pat_completeness auto
termination
  by (relation "measure (\<lambda>(i, j, l). length l - j)") (auto simp: Let_def)

declare inner_loop.simps [simp del]

lemma length_inner_loop: "length (inner_loop i j l) = length l"
proof (induction i j l rule: inner_loop.induct)
  case (1 i j l)
  then show ?case
    by (subst inner_loop.simps) (auto simp: Let_def)
qed

function outer_loop :: "nat \<Rightarrow> checked list \<Rightarrow> checked list" where
  "outer_loop i checkedList =
     (if i < length checkedList then outer_loop (i + 1) (inner_loop i (i + 1) checkedList)
      else checkedList)"
  by pat_completeness auto
termination
  by (relation "measure (\<lambda>(i, l). length l - i)") (auto simp: length_inner_loop)

declare outer_loop.simps [simp del]

definition selectedList :: "(jsval \<Rightarrow> bool) \<Rightarrow> catalog_course list \<Rightarrow> checked list" where
  "selectedList sel courses = outer_loop 0 (map init_checked (selection sel courses))"




section \<open>Calendar projector: \<open>calendarEvents\<close>\<close>

text \<open>\<open>String(n)\<close> on a natural number.\<close>

definition digit_char :: "nat \<Rightarrow> char" where
  "digit_char n = ''0123456789'' ! (n mod 10)"

fun nat_to_digits :: "nat \<Rightarrow> string" where
  "nat_to_digits n =
     (if n < 10 then [digit_char n] else nat_to_digits (n div 10) @ [digit_char n])"

declare nat_to_digits.simps [simp del]

text \<open>\<open>s.padStart(2, '0')\<close>.\<close>

definition padStart2 :: "string \<Rightarrow> string" where
  "padStart2 s = replicate (2 - length s) CHR ''0'' @ s"

text \<open>
  \<open>formatTime\<close> uses the expression \<open>/(\d+):(\d+)(\w+)/\<close>, which matches as the one of
  \<open>convertToMinutes\<close> does and has the hours, the minutes and the period as its groups.
\<close>

definition formatTime :: "string \<Rightarrow> string" where
  "formatTime timeStr =
     (case time_match timeStr of
        None \<Rightarrow> ''00:00''
      | Some (h, minutes, period) \<Rightarrow>
          (let hours = digits_to_nat h;
               hours1 = (if startsWith_ci CHR ''p'' period \<and> hours \<noteq> 12 then hours + 12 else hours);
               hours2 = (if startsWith_ci CHR ''a'' period \<and> hours1 = 12 then 0 else hours1)
           in padStart2 (nat_to_digits hours2) @ '':'' @ minutes @ '':00''))"

definition dayMap :: "(char \<times> nat) list" where
  "dayMap = [(CHR ''M'', 1), (CHR ''T'', 2), (CHR ''W'', 3), (CHR ''R'', 4), (CHR ''F'', 5)]"

definition termColors :: "(string \<times> string) list" where
  "termColors = [(''Full'', ''#3788d8''), (''Q1'', ''#4caf50''), (''Q2'', ''#ff9800'')]"

definition termsToShow :: "string \<Rightarrow> string list" where
  "termsToShow calendarView =
     (if calendarView = ''Overall'' then [''Full'', ''Q1'', ''Q2'']
      else if calendarView = ''Q1'' then [''Full'', ''Q1'']
      else [''Full'', ''Q2''])"

text \<open>\<open>terms.includes(v)\<close> on a list of strings: only a string can be a member.\<close>

fun includes_term :: "string list \<Rightarrow> jsval \<Rightarrow> bool" where
  "includes_term terms (Str t) = (t \<in> set terms)"
| "includes_term terms _ = False"

record event =
  title :: string
  daysOfWeek :: "nat list"
  startTime :: string
  endTime :: string
  allDay :: bool
  color :: string

text \<open>The predicate of the \<open>filter\<close>.\<close>

definition shown :: "string \<Rightarrow> checked \<Rightarrow> bool" where
  "shown calendarView s =
     (\<not> absent (Time s) \<and> \<not> absent (Days s) \<and> \<not> isConflicting s \<and>
      includes_term (termsToShow calendarView) (Term s))"

text \<open>
  The function of the \<open>flatMap\<close>: no event, or one. It runs on sections that passed the
  filter, whose term is a string; \<open>color_of\<close> is \<open>termColors[section.Term] || '#808080'\<close>.
\<close>

fun color_of :: "jsval \<Rightarrow> string" where
  "color_of (Str t) = (case map_of termColors t of Some c \<Rightarrow> c | None \<Rightarrow> ''#808080'')"
| "color_of _ = ''#808080''"

definition section_event :: "checked \<Rightarrow> event list" where
  "section_event s =
     (case split_on CHR ''-'' (text_of (Time s)) of
        [] \<Rightarrow> []
      | [st] \<Rightarrow> []
      | st # en # rest \<Rightarrow>
          (if st = [] \<or> en = [] then []
           else (let days = concat (map (\<lambda>day. case map_of dayMap day of
                                                 Some n \<Rightarrow> [n]
                                               | None \<Rightarrow> [])
                                        (text_of (Days s)))
                 in if length days = 0 then []
                    else [\<lparr>title = sel_Course_Code s, daysOfWeek = days,
                           startTime = formatTime st, endTime = formatTime en,
                           allDay = False, color = color_of (Term s)\<rparr>])))"

definition calendarEvents :: "string \<Rightarrow> checked list \<Rightarrow> event list" where
  "calendarEvents calendarView selected =
     concat (map section_event (filter (shown calendarView) selected))"

text \<open>The events one section of the selection list contributes.\<close>

definition events_of :: "string \<Rightarrow> checked \<Rightarrow> event list" where
  "events_of calendarView s = (if shown calendarView s then section_event s else [])"

section \<open>Catalog builder: \<open>priceMap\<close> and \<open>courseMap\<close>\<close>

record row =
  Course_ID :: jsval
  row_Title :: jsval
  Section_ID :: jsval
  base_course_quality :: jsval
  base_instructor_quality :: jsval
  base_difficulty :: jsval
  base_work_required :: jsval
  Meetings_Days :: "string option"
  Meetings_Time :: "string option"
  row_Term :: jsval
  CU :: jsval
  row_Instructor :: jsval
  Instructor_last :: jsval
  review_rCourseQuality :: jsval
  review_rInstructorQuality :: jsval
  review_rDifficulty :: jsval
  review_rWorkRequired :: jsval

record price_row =
  price_Course_ID :: jsval
  price_Average_Price :: jsval

text \<open>
  An object is the list of its own properties in insertion order; \<open>AList.update\<close> assigns
  in place or appends. \<open>x || 0\<close> on a number:
\<close>

definition or_zero :: "jsnum \<Rightarrow> jsnum" where
  "or_zero n = (if falsy_num n then Fin 0 else n)"

definition priceMap_step :: "builtins \<Rightarrow> (string \<times> jsnum) list \<Rightarrow> price_row \<Rightarrow> (string \<times> jsnum) list" where
  "priceMap_step B acc r =
     (let code = getBaseCourseCode B (price_Course_ID r) in
      if code \<noteq> [] then AList.update code (or_zero (parseFloat B (price_Average_Price r))) acc
      else acc)"

definition priceMap :: "builtins \<Rightarrow> price_row list \<Rightarrow> (string \<times> jsnum) list" where
  "priceMap B rows = foldl (priceMap_step B) [] rows"

text \<open>\<open>priceMap[code] || 0\<close>.\<close>

definition price_of :: "(string \<times> jsnum) list \<Rightarrow> string \<Rightarrow> jsnum" where
  "price_of pm code = (case map_of pm code of None \<Rightarrow> Fin 0 | Some p \<Rightarrow> or_zero p)"

text \<open>\<open>v ? parseFloat(v) : null\<close>.\<close>

definition rating :: "builtins \<Rightarrow> jsval \<Rightarrow> jsnum option" where
  "rating B v = (if truthy v then Some (parseFloat B v) else None)"

type_synonym sections_obj = "(string \<times> course_section) list"

type_synonym course_obj = "sections_obj course"

definition new_course :: "builtins \<Rightarrow> (string \<times> jsnum) list \<Rightarrow> string \<Rightarrow> row \<Rightarrow> course_obj" where
  "new_course B pm code r =
     \<lparr>Course_Code = code,
      Title = row_Title r,
      course_rating = rating B (base_course_quality r),
      instructor_rating = rating B (base_instructor_quality r),
      difficulty_rating = rating B (base_difficulty r),
      work_rating = rating B (base_work_required r),
      Average_Price = price_of pm code,
      sections = []\<rparr>"

definition new_section :: "row \<Rightarrow> course_section" where
  "new_section r =
     \<lparr>Session_ID = Section_ID r,
      Meetings = trim (text_of (Meetings_Days r) @ '' '' @ text_of (Meetings_Time r)),
      Days = Meetings_Days r,
      Time = Meetings_Time r,
      Term = row_Term r,
      Credits = CU r,
      instructors = []\<rparr>"

definition new_instructor :: "builtins \<Rightarrow> row \<Rightarrow> instructor" where
  "new_instructor B r =
     \<lparr>name = getLastName (row_Instructor r) (Instructor_last r),
      Course_Quality = rating B (review_rCourseQuality r),
      Instructor_Quality = rating B (review_rInstructorQuality r),
      Difficulty = rating B (review_rDifficulty r),
      Work_Required = rating B (review_rWorkRequired r)\<rparr>"

text \<open>
  The names every object inherits from \<open>Object.prototype\<close>. A section id that is one of
  them reads as present in the empty \<open>sections\<close> object, no section is created, and the
  \<open>push\<close> on its missing \<open>instructors\<close> raises a \<open>TypeError\<close>. A course code has no lower
  case letter, so it is never one of these names.
\<close>

definition prototype_names :: "string list" where
  "prototype_names =
     [''constructor'', ''hasOwnProperty'', ''isPrototypeOf'', ''propertyIsEnumerable'',
      ''toLocaleString'', ''toString'', ''valueOf'', ''__proto__'',
      ''__defineGetter__'', ''__defineSetter__'', ''__lookupGetter__'', ''__lookupSetter__'']"

datatype error = TypeError

text \<open>The body of the \<open>if (row.Section_ID)\<close>, on the sections of the course.\<close>

definition add_instructor :: "builtins \<Rightarrow> row \<Rightarrow> sections_obj \<Rightarrow> error + sections_obj" where
  "add_instructor B r secs =
     (let key = ToString B (Section_ID r) in
      case map_of secs key of
        Some s \<Rightarrow> Inr (AList.update key (s\<lparr>instructors := instructors s @ [new_instructor B r]\<rparr>) secs)
      | None \<Rightarrow>
          (if key \<in> set prototype_names then Inl TypeError
           else Inr (AList.update key
                       ((new_section r)\<lparr>instructors := [new_instructor B r]\<rparr>) secs)))"

definition courseMap_step ::
  "builtins \<Rightarrow> (string \<times> jsnum) list \<Rightarrow> (string \<times> course_obj) list \<Rightarrow> row \<Rightarrow>
   error + (string \<times> course_obj) list" where
  "courseMap_step B pm acc r =
     (let code = getBaseCourseCode B (Course_ID r) in
      if code = [] then Inr acc
      else (let c = (case map_of acc code of None \<Rightarrow> new_course B pm code r | Some c \<Rightarrow> c);
                acc1 = (case map_of acc code of None \<Rightarrow> AList.update code c acc | Some c \<Rightarrow> acc)
            in if truthy (Section_ID r) then
                 (case add_instructor B r (sections c) of
                    Inl e \<Rightarrow> Inl e
                  | Inr secs \<Rightarrow> Inr (AList.update code (c\<lparr>sections := secs\<rparr>) acc1))
               else Inr acc1))"

fun courseMap_from ::
  "builtins \<Rightarrow> (string \<times> jsnum) list \<Rightarrow> (string \<times> course_obj) list \<Rightarrow> row list \<Rightarrow>
   error + (string \<times> course_obj) list" where
  "courseMap_from B pm acc [] = Inr acc"
| "courseMap_from B pm acc (r # rows) =
     (case courseMap_step B pm acc r of
        Inl e \<Rightarrow> Inl e
      | Inr acc' \<Rightarrow> courseMap_from B pm acc' rows)"

definition courseMap ::
  "builtins \<Rightarrow> (string \<times> jsnum) list \<Rightarrow> row list \<Rightarrow> error + (string \<times> course_obj) list" where
  "courseMap B pm rows = courseMap_from B pm [] rows"

section \<open>View engine: \<open>sortedCourses\<close>\<close>

text \<open>\<open>a[sortConfig.key]\<close> for the nine columns of the table; any other key is not a
  column and reads as undefined here.\<close>

fun rating_val :: "jsnum option \<Rightarrow> jsval" where
  "rating_val None = Null"
| "rating_val (Some n) = Num n"

definition field_val :: "string \<Rightarrow> catalog_course \<Rightarrow> jsval" where
  "field_val k c =
     (if k = ''Course_Code'' then Str (Course_Code c)
      else if k = ''Title'' then Title c
      else if k = ''Average_Price'' then Num (Average_Price c)
      else if k = ''Terms'' then Str (Terms c)
      else if k = ''Credits'' then Str (course_Credits c)
      else if k = ''course_rating'' then rating_val (course_rating c)
      else if k = ''instructor_rating'' then rating_val (instructor_rating c)
      else if k = ''difficulty_rating'' then rating_val (difficulty_rating c)
      else if k = ''work_rating'' then rating_val (work_rating c)
      else Undefined)"

text \<open>
  \<open>x < y\<close>: two strings compare by their code units, from the left; any other pair is
  converted to numbers, and a comparison with \<open>NaN\<close> is false.
\<close>

fun str_lt :: "string \<Rightarrow> string \<Rightarrow> bool" where
  "str_lt [] [] = False"
| "str_lt [] (y # ys) = True"
| "str_lt (x # xs) [] = False"
| "str_lt (x # xs) (y # ys) =
     ((of_char x :: nat) < of_char y \<or> (x = y \<and> str_lt xs ys))"

fun num_lt :: "jsnum \<Rightarrow> jsnum \<Rightarrow> bool" where
  "num_lt (Fin a) (Fin b) = (a < b)"
| "num_lt NaN y = False"
| "num_lt x NaN = False"
| "num_lt NegInf NegInf = False"
| "num_lt NegInf y = True"
| "num_lt x NegInf = False"
| "num_lt PosInf y = False"
| "num_lt (Fin a) PosInf = True"

fun ToNumber :: "builtins \<Rightarrow> jsval \<Rightarrow> jsnum" where
  "ToNumber B Undefined = NaN"
| "ToNumber B Null = Fin 0"
| "ToNumber B (Str s) = StringToNumber B s"
| "ToNumber B (Num n) = n"

fun js_lt :: "builtins \<Rightarrow> jsval \<Rightarrow> jsval \<Rightarrow> bool" where
  "js_lt B (Str s) (Str t) = str_lt s t"
| "js_lt B x y = num_lt (ToNumber B x) (ToNumber B y)"

record sortConfig =
  key :: string
  direction :: string

text \<open>The comparison function handed to \<open>sort\<close>; \<open>a > b\<close> is \<open>b < a\<close>.\<close>

definition compare_courses :: "builtins \<Rightarrow> sortConfig \<Rightarrow> catalog_course \<Rightarrow> catalog_course \<Rightarrow> int" where
  "compare_courses B cfg a b =
     (let aVal = field_val (key cfg) a;
          bVal = field_val (key cfg) b
      in if js_lt B aVal bVal then (if direction cfg = ''ascending'' then - 1 else 1)
         else if js_lt B bVal aVal then (if direction cfg = ''ascending'' then 1 else - 1)
         else 0)"

text \<open>
  \<open>Array.prototype.sort\<close> with a comparison function is a built-in whose algorithm the
  language leaves to the engine: it is the parameter \<open>sortfn\<close> of \<open>sortedCourses\<close>. What the
  language requires of it is \<open>sort_contract\<close>: when the comparison function is consistent
  on the elements of the array (\<open>consistent_on\<close>, the conditions of the language definition:
  comparing equal is reflexive, symmetric and transitive, comparing less is transitive and
  so is comparing greater), the result holds the elements of the array, is sorted, and
  keeps elements that compare equal in their order. When the comparison is not consistent
  the order is the engine's.
\<close>

definition consistent_on :: "('a \<Rightarrow> 'a \<Rightarrow> int) \<Rightarrow> 'a set \<Rightarrow> bool" where
  "consistent_on cmp S =
     ((\<forall>a\<in>S. cmp a a = 0) \<and>
      (\<forall>a\<in>S. \<forall>b\<in>S. cmp a b = 0 \<longrightarrow> cmp b a = 0) \<and>
      (\<forall>a\<in>S. \<forall>b\<in>S. \<forall>c\<in>S. cmp a b = 0 \<and> cmp b c = 0 \<longrightarrow> cmp a c = 0) \<and>
      (\<forall>a\<in>S. \<forall>b\<in>S. \<forall>c\<in>S. cmp a b < 0 \<and> cmp b c < 0 \<longrightarrow> cmp a c < 0) \<and>
      (\<forall>a\<in>S. \<forall>b\<in>S. \<forall>c\<in>S. cmp a b > 0 \<and> cmp b c > 0 \<longrightarrow> cmp a c > 0))"

definition sort_contract :: "(('a \<Rightarrow> 'a \<Rightarrow> int) \<Rightarrow> 'a list \<Rightarrow> 'a list) \<Rightarrow> bool" where
  "sort_contract sortfn =
     (\<forall>cmp xs. consistent_on cmp (set xs) \<longrightarrow>
        (\<forall>x. count_list (sortfn cmp xs) x = count_list xs x) \<and>
        sorted_wrt (\<lambda>x y. cmp x y \<le> 0) (sortfn cmp xs) \<and>
        (\<forall>a\<in>set xs. \<forall>b\<in>set xs. cmp a b = 0 \<longrightarrow>
           filter (\<lambda>x. x = a \<or> x = b) (sortfn cmp xs) = filter (\<lambda>x. x = a \<or> x = b) xs))"

text \<open>
  The sort of the V8 engine on an array of fewer than 64 elements, where its merge sort
  has a single run: \<open>CountAndMakeRun\<close> finds the run at the start of the array, comparing
  each element with the one before it, and reverses the run if it descends;
  \<open>BinaryInsertionSort\<close> then inserts each later element at the place a binary search
  finds for it among the elements before it.
\<close>

fun count_run :: "('a \<Rightarrow> 'a \<Rightarrow> int) \<Rightarrow> bool \<Rightarrow> 'a \<Rightarrow> 'a list \<Rightarrow> nat" where
  "count_run cmp isDescending previousElement [] = 0"
| "count_run cmp isDescending previousElement (currentElement # rest) =
     (let order = cmp currentElement previousElement in
      if isDescending \<and> order \<ge> 0 then 0
      else if \<not> isDescending \<and> order < 0 then 0
      else 1 + count_run cmp isDescending currentElement rest)"

definition CountAndMakeRun :: "('a \<Rightarrow> 'a \<Rightarrow> int) \<Rightarrow> 'a list \<Rightarrow> nat \<times> 'a list" where
  "CountAndMakeRun cmp a =
     (case a of
        [] \<Rightarrow> (0, a)
      | [x] \<Rightarrow> (1, a)
      | elementHigh # elementLow # rest \<Rightarrow>
          (let isDescending = (cmp elementLow elementHigh < 0);
               runLength = 2 + count_run cmp isDescending elementLow rest
           in (runLength,
               if isDescending then rev (take runLength a) @ drop runLength a else a)))"

function binary_search :: "('a \<Rightarrow> 'a \<Rightarrow> int) \<Rightarrow> 'a \<Rightarrow> 'a list \<Rightarrow> nat \<Rightarrow> nat \<Rightarrow> nat" where
  "binary_search cmp pivot a left right =
     (if left < right then
        (let mid = left + (right - left) div 2 in
         if cmp pivot (a ! mid) < 0 then binary_search cmp pivot a left mid
         else binary_search cmp pivot a (mid + 1) right)
      else left)"
  by pat_completeness auto
termination
  by (relation "measure (\<lambda>(cmp, pivot, a, left, right). right - left)") auto

declare binary_search.simps [simp del]

lemma binary_search_bounds:
  "left \<le> right \<Longrightarrow> left \<le> binary_search cmp pivot a left right \<and>
                     binary_search cmp pivot a left right \<le> right"
proof (induction cmp pivot a left right rule: binary_search.induct)
  case (1 cmp pivot a left right)
  show ?case
  proof (cases "left < right")
    case False
    with "1.prems" show ?thesis by (subst (1 2) binary_search.simps) simp
  next
    case True
    define mid where "mid = left + (right - left) div 2"
    have m: "left \<le> mid" "mid < right" using True by (auto simp: mid_def)
    show ?thesis
    proof (cases "cmp pivot (a ! mid) < 0")
      case l: True
      have "binary_search cmp pivot a left right = binary_search cmp pivot a left mid"
        using True l by (subst binary_search.simps) (simp add: mid_def Let_def)
      with "1.IH"(1)[OF True mid_def l] m show ?thesis by simp
    next
      case g: False
      have "binary_search cmp pivot a left right = binary_search cmp pivot a (mid + 1) right"
        using True g by (subst binary_search.simps) (simp add: mid_def Let_def)
      with "1.IH"(2)[OF True mid_def g] m show ?thesis by simp
    qed
  qed
qed

function BinaryInsertionSort :: "('a \<Rightarrow> 'a \<Rightarrow> int) \<Rightarrow> nat \<Rightarrow> 'a list \<Rightarrow> 'a list" where
  "BinaryInsertionSort cmp start a =
     (if start < length a then
        (let pivot = a ! start;
             left = binary_search cmp pivot a 0 start
         in BinaryInsertionSort cmp (start + 1)
              (take left a @ pivot # drop left (take start a) @ drop (start + 1) a))
      else a)"
  by pat_completeness auto
termination
proof (relation "measure (\<lambda>(cmp, start, a). length a - start)")
  show "wf (measure (\<lambda>(cmp, start, a). length a - start))" by simp
next
  fix cmp :: "'a \<Rightarrow> 'a \<Rightarrow> int" and start :: nat and a :: "'a list" and pivot left
  assume s: "start < length a" and "pivot = a ! start"
    and l: "left = binary_search cmp pivot a 0 start"
  from l binary_search_bounds[of 0 start cmp pivot a] have "left \<le> start" by simp
  with s show "((cmp, start + 1,
            take left a @ pivot # drop left (take start a) @ drop (start + 1) a),
           cmp, start, a) \<in> measure (\<lambda>(cmp, start, a). length a - start)"
    by simp
qed

declare BinaryInsertionSort.simps [simp del]

definition v8_short_sort :: "('a \<Rightarrow> 'a \<Rightarrow> int) \<Rightarrow> 'a list \<Rightarrow> 'a list" where
  "v8_short_sort cmp a =
     (if length a < 2 then a
      else (case CountAndMakeRun cmp a of
              (currentRunLength, a1) \<Rightarrow> BinaryInsertionSort cmp currentRunLength a1))"

text \<open>
  Arrays live in a heap, a list of arrays addressed by position, so that a copy and the
  array it was taken from are different objects. \<open>sortedCourses\<close> allocates the copy
  \<open>[...filteredCourses]\<close>, sorts it in place and returns its address with the new heap.
  The address of the filtered list is one of the heap.
\<close>

type_synonym heap = "catalog_course list list"

type_synonym course_sort =
  "(catalog_course \<Rightarrow> catalog_course \<Rightarrow> int) \<Rightarrow> catalog_course list \<Rightarrow> catalog_course list"

definition sortedCourses ::
  "builtins \<Rightarrow> course_sort \<Rightarrow> sortConfig \<Rightarrow> heap \<Rightarrow> nat \<Rightarrow> heap \<times> nat" where
  "sortedCourses B sortfn cfg h filteredCourses =
     (let arr = length h;
          h1 = h @ [h ! filteredCourses];
          h2 = h1[arr := sortfn (compare_courses B cfg) (h1 ! arr)]
      in (h2, arr))"

text \<open>
  The values under a sort key compare consistently when they are all strings, or all
  numbers other than \<open>NaN\<close>, with \<open>null\<close> counting as the number 0.
\<close>

fun is_text :: "jsval \<Rightarrow> bool" where
  "is_text (Str s) = True"
| "is_text _ = False"

fun is_ordered_number :: "jsval \<Rightarrow> bool" where
  "is_ordered_number Null = True"
| "is_ordered_number (Num n) = (n \<noteq> NaN)"
| "is_ordered_number _ = False"

definition comparable :: "jsval set \<Rightarrow> bool" where
  "comparable V = ((\<forall>v\<in>V. is_text v) \<or> (\<forall>v\<in>V. is_ordered_number v))"

section \<open>An instance of the built-in conversions\<close>

text \<open>
  The conversions on the non-negative integers and on strings of decimal digits, where
  they are exact, and the rounding that leaves a number as it is, as it does an integer of
  at most 53 bits; they serve to evaluate the functions above on examples.
\<close>

fun decimal_NumberToString :: "jsnum \<Rightarrow> string" where
  "decimal_NumberToString NaN = ''NaN''"
| "decimal_NumberToString (Fin q) = nat_to_digits (nat \<lfloor>q\<rfloor>)"
| "decimal_NumberToString PosInf = ''Infinity''"
| "decimal_NumberToString NegInf = ''-Infinity''"

definition decimal_parseFloat :: "string \<Rightarrow> jsnum" where
  "decimal_parseFloat s =
     (let ds = takeWhile is_digit (dropWhile is_space s)
      in if ds = [] then NaN else Fin (of_nat (digits_to_nat ds)))"

definition decimal_StringToNumber :: "string \<Rightarrow> jsnum" where
  "decimal_StringToNumber s =
     (let t = trim s
      in if t = [] then Fin 0
         else if list_all is_digit t then Fin (of_nat (digits_to_nat t))
         else NaN)"

definition decimal_builtins :: builtins where
  "decimal_builtins =
     \<lparr>NumberToString = decimal_NumberToString,
      parseFloatStr = decimal_parseFloat,
      StringToNumber = decimal_StringToNumber,
      RoundToDouble = Fin\<rparr>"

section \<open>Sample data\<close>

text \<open>A section with the given days and time, a section id and a term; the other
  fields are empty.\<close>

definition example_section_of :: "string \<Rightarrow> string \<Rightarrow> string \<Rightarrow> string option \<Rightarrow> course_section" where
  "example_section_of sid trm days tm =
     \<lparr>Session_ID = Str sid, Meetings = trim (days @ '' '' @ text_of tm), Days = Some days,
      Time = tm, Term = Str trm, Credits = Num (Fin 1), instructors = []\<rparr>"

definition example_section :: "string \<Rightarrow> string option \<Rightarrow> course_section" where
  "example_section days tm = example_section_of ''S1'' ''Full'' days tm"

text \<open>A finished course with a code, a price and sections, and a catalog of three courses:
  the sections \<open>a1\<close> and \<open>b1\<close> overlap on Wednesday, \<open>c1\<close> meets on Friday.\<close>

definition example_course :: "string \<Rightarrow> rat \<Rightarrow> course_section list \<Rightarrow> catalog_course" where
  "example_course code p secs =
     \<lparr>Course_Code = code, Title = Str code, course_rating = None, instructor_rating = None,
      difficulty_rating = None, work_rating = None, Average_Price = Fin p, sections = secs,
      Terms = ''Full'', course_Credits = ''1''\<rparr>"

definition example_catalog :: "catalog_course list" where
  "example_catalog =
     [example_course ''AAAA-1000'' 100
        [example_section_of ''a1'' ''Full'' ''MW'' (Some ''9:00am-10:30am''),
         example_section_of ''a2'' ''Full'' ''TR'' (Some ''9:00am-10:30am'')],
      example_course ''BBBB-2000'' 200
        [example_section_of ''b1'' ''Q1'' ''W'' (Some ''10:00am-11:00am'')],
      example_course ''CCCC-3000'' 300
        [example_section_of ''c1'' ''Q2'' ''F'' (Some ''1:00pm-2:00pm'')]]"

definition example_selection :: "jsval \<Rightarrow> bool" where
  "example_selection v = (v \<in> set [Str ''a1'', Str ''b1'', Str ''c1''])"


text \<open>Listing rows and price rows. The first row and the later rows carry the same
  course in three spellings; two of them share a section; one has no usable identifier.\<close>

definition example_row :: "string \<Rightarrow> string \<Rightarrow> string \<Rightarrow> jsval \<Rightarrow> string \<Rightarrow> string \<Rightarrow> row" where
  "example_row cid ttl sid quality days instr =
     \<lparr>Course_ID = Str cid, row_Title = Str ttl, Section_ID = Str sid,
      base_course_quality = quality, base_instructor_quality = Num (Fin 0),
      base_difficulty = Undefined, base_work_required = Str ''n/a'',
      Meetings_Days = Some days, Meetings_Time = Some ''9:00am-10:30am'',
      row_Term = Str ''Full'', CU = Num (Fin 1),
      row_Instructor = Str instr, Instructor_last = Undefined,
      review_rCourseQuality = Str ''2'', review_rInstructorQuality = Undefined,
      review_rDifficulty = Num (Fin 0), review_rWorkRequired = Str []\<rparr>"

definition example_first_row :: row where
  "example_first_row =
     example_row ''ACCT6110001'' ''Accounting'' ''ACCT6110001'' (Str ''3'') ''MW'' ''Smith, John''"

definition example_later_rows :: "row list" where
  "example_later_rows =
     [example_row ''acct 6110'' ''Another title'' ''ACCT6110001'' (Str ''4'') ''TR'' ''Jane Doe'',
      example_row ''--'' ''No code'' ''X1'' Undefined ''F'' ''Nobody'',
      example_row ''ACCT-6110-002'' ''Accounting II'' ''ACCT6110002'' Undefined ''F'' ''Lee'']"

definition example_prices :: "price_row list" where
  "example_prices =
     [\<lparr>price_Course_ID = Str ''ACCT 6110'', price_Average_Price = Str ''1500''\<rparr>,
      \<lparr>price_Course_ID = Str ''FNCE 6110'', price_Average_Price = Str ''n/a''\<rparr>]"

text \<open>The accumulated object after the first row.\<close>

definition example_acc :: "(string \<times> course_obj) list" where
  "example_acc =
     [(''ACCT-6110'',
       \<lparr>Course_Code = ''ACCT-6110'', Title = Str ''Accounting'',
        course_rating = Some (Fin 3), instructor_rating = None,
        difficulty_rating = None, work_rating = Some NaN,
        Average_Price = Fin 1500,
        sections =
          [(''ACCT6110001'',
            \<lparr>Session_ID = Str ''ACCT6110001'', Meetings = ''MW 9:00am-10:30am'',
             Days = Some ''MW'', Time = Some ''9:00am-10:30am'', Term = Str ''Full'',
             Credits = Num (Fin 1),
             instructors =
               [\<lparr>name = Str ''Smith'', Course_Quality = Some (Fin 2),
                 Instructor_Quality = None, Difficulty = None, Work_Required = None\<rparr>]\<rparr>)]\<rparr>)]"

text \<open>An entry of the selection list with the given term, days and time, not flagged.\<close>

definition example_checked :: "string \<Rightarrow> string \<Rightarrow> string option \<Rightarrow> checked" where
  "example_checked trm days tm =
     init_checked (entry (example_course ''AAAA-1000'' 100 []) (example_section_of ''a1'' trm days tm))"

text \<open>Three courses of which the first and the last have the same price.\<close>

definition example_filtered :: "catalog_course list" where
  "example_filtered =
     [example_course ''CCCC-3000'' 200 [], example_course ''BBBB-2000'' 100 [],
      example_course ''AAAA-1000'' 200 []]"

text \<open>Four courses with the course ratings 3, 1, \<open>NaN\<close> and 2.\<close>

definition example_rated_course :: "string \<Rightarrow> jsnum \<Rightarrow> catalog_course" where
  "example_rated_course code r = (example_course code 100 [])\<lparr>course_rating := Some r\<rparr>"

definition example_rated :: "catalog_course list" where
  "example_rated =
     [example_rated_course ''AAAA-1000'' (Fin 3), example_rated_course ''BBBB-2000'' (Fin 1),
      example_rated_course ''CCCC-3000'' NaN, example_rated_course ''DDDD-4000'' (Fin 2)]"

section \<open>Properties of the code normalizer\<close>

lemma digit_not_sep: "is_digit c \<Longrightarrow> c \<noteq> CHR ''-'' \<and> c \<noteq> CHR '' ''"
  by (auto simp: is_digit_def)

lemma code_digits_Some: "code_digits s = Some n \<longleftrightarrow> (\<exists>post. s = n @ post \<and> length n = 4 \<and> list_all is_digit n)"
proof
  assume "code_digits s = Some n"
  then have "n = take 4 s" "length n = 4" "list_all is_digit n"
    by (auto simp: code_digits_def split: if_splits)
  then have "s = n @ drop 4 s" by simp
  with \<open>length n = 4\<close> \<open>list_all is_digit n\<close> show "\<exists>post. s = n @ post \<and> length n = 4 \<and> list_all is_digit n" by blast
next
  assume "\<exists>post. s = n @ post \<and> length n = 4 \<and> list_all is_digit n"
  then show "code_digits s = Some n" by (auto simp: code_digits_def)
qed

lemma code_match_at_sound:
  assumes "code_match_at s = Some (d, n)"
  shows "\<exists>sep post. s = d @ sep @ n @ post \<and> code_pattern d sep n"
proof -
  from assms have d: "d = take 4 s" "length d = 4" "list_all is_letter d"
    by (auto simp: code_match_at_def split: if_splits list.splits option.splits)
  then have s: "s = d @ drop 4 s" by simp
  from assms d obtain c cs where r: "drop 4 s = c # cs"
    by (auto simp: code_match_at_def split: if_splits list.splits)
  from assms d r consider (sep) "(c = CHR ''-'' \<or> c = CHR '' '')" "code_digits cs = Some n"
    | (nosep) "code_digits (c # cs) = Some n"
    by (auto simp: code_match_at_def split: if_splits option.splits)
  then show ?thesis
  proof cases
    case sep
    then obtain post where "cs = n @ post" "length n = 4" "list_all is_digit n"
      by (auto simp: code_digits_Some)
    with sep d s r have "s = d @ [c] @ n @ post \<and> code_pattern d [c] n"
      by (auto simp: code_pattern_def)
    then show ?thesis by blast
  next
    case nosep
    then obtain post where "c # cs = n @ post" "length n = 4" "list_all is_digit n"
      by (auto simp: code_digits_Some)
    with d s r have "s = d @ [] @ n @ post \<and> code_pattern d [] n"
      by (auto simp: code_pattern_def)
    then show ?thesis by blast
  qed
qed

lemma code_match_at_complete:
  assumes "code_pattern d sep n"
  shows "code_match_at (d @ sep @ n @ post) = Some (d, n)"
proof -
  from assms have d: "length d = 4" "list_all is_letter d" and n: "length n = 4" "list_all is_digit n"
    and sep: "sep = [] \<or> sep = ''-'' \<or> sep = '' ''"
    by (auto simp: code_pattern_def)
  from n obtain c cs where ncs: "n = c # cs" by (cases n) auto
  with n have c: "c \<noteq> CHR ''-''" "c \<noteq> CHR '' ''" using digit_not_sep by auto
  have dig: "code_digits (n @ post) = Some n" using n by (auto simp: code_digits_Some)
  from sep show ?thesis
  proof (elim disjE)
    assume "sep = []"
    then show ?thesis using d dig c ncs by (simp add: code_match_at_def)
  next
    assume "sep = ''-''"
    then show ?thesis using d dig by (simp add: code_match_at_def)
  next
    assume "sep = '' ''"
    then show ?thesis using d dig by (simp add: code_match_at_def)
  qed
qed

lemma code_match_at_Nil: "code_match_at [] = None"
  by (simp add: code_match_at_def)

lemma code_match_sound:
  "code_match s = Some r \<Longrightarrow> \<exists>pre rest. s = pre @ rest \<and> code_match_at rest = Some r"
proof (induction s)
  case Nil
  then show ?case by simp
next
  case (Cons c cs)
  show ?case
  proof (cases "code_match_at (c # cs)")
    case None
    with Cons obtain pre rest where "cs = pre @ rest" "code_match_at rest = Some r" by auto
    then have "c # cs = (c # pre) @ rest \<and> code_match_at rest = Some r" by simp
    then show ?thesis by blast
  next
    case (Some a)
    with Cons.prems have "c # cs = [] @ (c # cs) \<and> code_match_at (c # cs) = Some r" by simp
    then show ?thesis by blast
  qed
qed

lemma code_match_complete:
  "code_match_at rest = Some r \<Longrightarrow> \<exists>r'. code_match (pre @ rest) = Some r'"
proof (induction pre)
  case Nil
  then show ?case by (cases rest) (auto simp: code_match_at_Nil)
next
  case (Cons c pre)
  then show ?case by (cases "code_match_at (c # pre @ rest)") auto
qed

lemma code_match_head:
  "code_match_at s = Some r \<Longrightarrow> code_match s = Some r"
  by (cases s) (auto simp: code_match_at_Nil)

lemma upper_char_letter: "is_letter c \<Longrightarrow> is_upper (upper_char c)"
  by (auto simp: is_letter_def is_upper_def is_lower_def upper_char_def)

lemma toUpperCase_letters: "list_all is_letter d \<Longrightarrow> list_all is_upper (toUpperCase d)"
  by (induction d) (auto simp: toUpperCase_def upper_char_letter)


lemma pattern_at_iff: "pattern_at s \<longleftrightarrow> code_match_at s \<noteq> None"
proof
  assume "pattern_at s"
  then obtain d sep n post where "s = d @ sep @ n @ post" "code_pattern d sep n"
    by (auto simp: pattern_at_def)
  then show "code_match_at s \<noteq> None" by (simp add: code_match_at_complete)
next
  assume "code_match_at s \<noteq> None"
  then obtain d n where "code_match_at s = Some (d, n)" by auto
  from code_match_at_sound[OF this] show "pattern_at s" by (auto simp: pattern_at_def)
qed

lemma not_pattern_at_iff: "\<not> pattern_at s \<longleftrightarrow> code_match_at s = None"
  using pattern_at_iff by blast

lemma code_match_skip:
  "(\<forall>k<length pre. code_match_at (drop k (pre @ rest)) = None) \<Longrightarrow>
   code_match (pre @ rest) = code_match rest"
proof (induction pre)
  case Nil
  then show ?case by simp
next
  case (Cons c pre)
  from Cons.prems have h0: "code_match_at (c # pre @ rest) = None" by force
  have "\<forall>k<length pre. code_match_at (drop k (pre @ rest)) = None"
  proof (intro allI impI)
    fix k assume "k < length pre"
    then have "Suc k < length (c # pre)" by simp
    with Cons.prems have "code_match_at (drop (Suc k) ((c # pre) @ rest)) = None" by blast
    then show "code_match_at (drop k (pre @ rest)) = None" by simp
  qed
  with Cons.IH h0 show ?case by simp
qed

lemma code_match_None:
  "(\<forall>k\<le>length s. code_match_at (drop k s) = None) \<Longrightarrow> code_match s = None"
proof -
  assume a: "\<forall>k\<le>length s. code_match_at (drop k s) = None"
  then have "\<forall>k<length s. code_match_at (drop k (s @ [])) = None" by simp
  from code_match_skip[OF this] show ?thesis by simp
qed

lemma code_match_exists:
  assumes "k \<le> length s" "pattern_at (drop k s)"
  shows "\<exists>d n. code_match s = Some (d, n) \<and> code_pattern d [] n"
proof -
  from assms(2) obtain r where r: "code_match_at (drop k s) = Some r"
    by (auto simp: pattern_at_iff)
  have "s = take k s @ drop k s" by simp
  with code_match_complete[OF r, of "take k s"] obtain r' where r': "code_match s = Some r'" by auto
  obtain d n where dn: "r' = (d, n)" by (cases r')
  from code_match_sound[OF r'] dn obtain rest where "code_match_at rest = Some (d, n)" by auto
  from code_match_at_sound[OF this] have "code_pattern d [] n" by (auto simp: code_pattern_def)
  with r' dn show ?thesis by simp
qed

text \<open>
  The tiers of the normalizer apart from the branch for seven characters: an absent or
  falsy input gives the empty string; an input whose text contains four letters, an
  optional hyphen or space and four digits gives \<open>DEPT-NNNN\<close> in upper case, built from the
  leftmost such occurrence; any other input is stripped of its non-alphanumeric characters
  and put in upper case, and the result is cut in two as \<open>[0:4]-[4:8]\<close> when it has 8
  characters, and returned as it is when it has neither 8 nor 7.
\<close>

lemma getBaseCourseCode_tiers:
  "(\<not> truthy raw \<longrightarrow> getBaseCourseCode B raw = [])
   \<and> (truthy raw \<and> k \<le> length (ToString B raw) \<and> pattern_at (drop k (ToString B raw)) \<longrightarrow>
        (\<exists>d' n'. code_pattern d' [] n' \<and> list_all is_upper (toUpperCase d') \<and>
                  getBaseCourseCode B raw = toUpperCase d' @ ''-'' @ n'))
   \<and> (truthy raw \<and> ToString B raw = pre @ d @ sep @ n @ post \<and> code_pattern d sep n \<and>
        (\<forall>j<length pre. \<not> pattern_at (drop j (ToString B raw))) \<longrightarrow>
        getBaseCourseCode B raw = toUpperCase d @ ''-'' @ n)
   \<and> (truthy raw \<and> (\<forall>j\<le>length (ToString B raw). \<not> pattern_at (drop j (ToString B raw))) \<and>
      length (filter is_alnum (ToString B raw)) \<noteq> 7 \<longrightarrow>
        getBaseCourseCode B raw =
          (let str = toUpperCase (filter is_alnum (ToString B raw)) in
           if length str = 8 then take 4 str @ ''-'' @ drop 4 str else str))"
proof (intro conjI impI)
  assume "\<not> truthy raw"
  then show "getBaseCourseCode B raw = []" by (simp add: getBaseCourseCode_def)
next
  assume a: "truthy raw \<and> k \<le> length (ToString B raw) \<and> pattern_at (drop k (ToString B raw))"
  then obtain d' n' where m: "code_match (ToString B raw) = Some (d', n')" and p: "code_pattern d' [] n'"
    using code_match_exists by blast
  from p have "list_all is_upper (toUpperCase d')"
    by (simp add: code_pattern_def toUpperCase_letters)
  moreover from a m have "getBaseCourseCode B raw = toUpperCase d' @ ''-'' @ n'"
    by (simp add: getBaseCourseCode_def)
  ultimately show "\<exists>d' n'. code_pattern d' [] n' \<and> list_all is_upper (toUpperCase d') \<and>
                  getBaseCourseCode B raw = toUpperCase d' @ ''-'' @ n'"
    using p by blast
next
  assume a: "truthy raw \<and> ToString B raw = pre @ d @ sep @ n @ post \<and> code_pattern d sep n \<and>
        (\<forall>j<length pre. \<not> pattern_at (drop j (ToString B raw)))"
  then have s: "ToString B raw = pre @ (d @ sep @ n @ post)" by simp
  have "\<forall>j<length pre. code_match_at (drop j (pre @ (d @ sep @ n @ post))) = None"
  proof (intro allI impI)
    fix j assume "j < length pre"
    with a have "\<not> pattern_at (drop j (ToString B raw))" by blast
    then show "code_match_at (drop j (pre @ (d @ sep @ n @ post))) = None"
      unfolding s not_pattern_at_iff by simp
  qed
  from code_match_skip[OF this] have "code_match (ToString B raw) = code_match (d @ sep @ n @ post)"
    using s by simp
  also from a have "\<dots> = Some (d, n)"
    by (simp add: code_match_at_complete code_match_head)
  finally show "getBaseCourseCode B raw = toUpperCase d @ ''-'' @ n"
    using a by (simp add: getBaseCourseCode_def)
next
  assume a: "truthy raw \<and> (\<forall>j\<le>length (ToString B raw). \<not> pattern_at (drop j (ToString B raw))) \<and>
      length (filter is_alnum (ToString B raw)) \<noteq> 7"
  then have "code_match (ToString B raw) = None"
    by (intro code_match_None) (simp add: not_pattern_at_iff)
  with a show "getBaseCourseCode B raw =
          (let str = toUpperCase (filter is_alnum (ToString B raw)) in
           if length str = 8 then take 4 str @ ''-'' @ drop 4 str else str)"
    by (simp add: getBaseCourseCode_def toUpperCase_def Let_def)
qed

text \<open>
  The branch for seven characters takes \<open>slice(0, 4)\<close> and \<open>slice(3)\<close>, which both hold the
  fourth character: the result has nine characters, not eight, and the fourth character of
  the cleaned string stands on both sides of the hyphen.
\<close>

lemma seven_characters_overlap:
  assumes "truthy raw"
    and "\<forall>j\<le>length (ToString B raw). \<not> pattern_at (drop j (ToString B raw))"
    and "str = toUpperCase (filter is_alnum (ToString B raw))"
    and "length str = 7"
  shows "getBaseCourseCode B raw = take 3 str @ [str ! 3] @ ''-'' @ [str ! 3] @ drop 4 str"
    and "length (getBaseCourseCode B raw) = 9"
proof -
  from assms(2) have "code_match (ToString B raw) = None"
    by (intro code_match_None) (simp add: not_pattern_at_iff)
  with assms have r: "getBaseCourseCode B raw = take 4 str @ ''-'' @ drop 3 str"
    by (simp add: getBaseCourseCode_def Let_def)
  from assms(4) have "take (Suc 3) str = take 3 str @ [str ! 3]"
    by (intro take_Suc_conv_app_nth) simp
  then have "take 4 str = take 3 str @ [str ! 3]" by simp
  moreover from assms(4) have "str ! 3 # drop (Suc 3) str = drop 3 str"
    by (intro Cons_nth_drop_Suc) simp
  then have "drop 3 str = str ! 3 # drop 4 str" by simp
  ultimately show "getBaseCourseCode B raw = take 3 str @ [str ! 3] @ ''-'' @ [str ! 3] @ drop 4 str"
    using r by simp
  from r assms(4) show "length (getBaseCourseCode B raw) = 9" by simp
qed


lemmas char_class_defs =
  is_digit_def is_upper_def is_lower_def is_letter_def is_alnum_def is_word_def is_space_def
  upper_char_def lower_char_def toUpperCase_def toLowerCase_def

text \<open>The tiers on examples: the empty string, the three spellings of a code with a
  department of four letters, a leftmost match inside a longer identifier, and the
  fallback.\<close>

lemma getBaseCourseCode_tiers_examples:
  "getBaseCourseCode decimal_builtins (Str []) = []
   \<and> getBaseCourseCode decimal_builtins (Str ''ACCT 6110'') = ''ACCT-6110''
   \<and> getBaseCourseCode decimal_builtins (Str ''acct6110'') = ''ACCT-6110''
   \<and> getBaseCourseCode decimal_builtins (Str ''ACCT-6110'') = ''ACCT-6110''
   \<and> getBaseCourseCode decimal_builtins (Str ''id acct-6110 001'') = ''ACCT-6110''
   \<and> getBaseCourseCode decimal_builtins (Str ''Math 10'') = ''MATH10''"
proof (intro conjI)
  show "getBaseCourseCode decimal_builtins (Str []) = []"
    using getBaseCourseCode_tiers[of "Str []" decimal_builtins] by simp
next
  have "code_pattern ''ACCT'' '' '' ''6110''"
    by (simp add: code_pattern_def char_class_defs)
  then show "getBaseCourseCode decimal_builtins (Str ''ACCT 6110'') = ''ACCT-6110''"
    using getBaseCourseCode_tiers[of "Str ''ACCT 6110''" decimal_builtins _ "[]" "''ACCT''"
        "'' ''" "''6110''" "[]"]
    by (simp add: char_class_defs)
next
  have "code_pattern ''acct'' [] ''6110''"
    by (simp add: code_pattern_def char_class_defs)
  then show "getBaseCourseCode decimal_builtins (Str ''acct6110'') = ''ACCT-6110''"
    using getBaseCourseCode_tiers[of "Str ''acct6110''" decimal_builtins _ "[]" "''acct''"
        "[]" "''6110''" "[]"]
    by (simp add: char_class_defs)
next
  have "code_pattern ''ACCT'' ''-'' ''6110''"
    by (simp add: code_pattern_def char_class_defs)
  then show "getBaseCourseCode decimal_builtins (Str ''ACCT-6110'') = ''ACCT-6110''"
    using getBaseCourseCode_tiers[of "Str ''ACCT-6110''" decimal_builtins _ "[]" "''ACCT''"
        "''-''" "''6110''" "[]"]
    by (simp add: char_class_defs)
next
  have "\<forall>j<length ''id ''. \<not> pattern_at (drop j ''id acct-6110 001'')"
    by (simp add: not_pattern_at_iff code_match_at_def code_digits_def char_class_defs
        All_less_Suc)
  moreover have "code_pattern ''acct'' ''-'' ''6110''"
    by (simp add: code_pattern_def char_class_defs)
  ultimately show "getBaseCourseCode decimal_builtins (Str ''id acct-6110 001'') = ''ACCT-6110''"
    using getBaseCourseCode_tiers[of "Str ''id acct-6110 001''" decimal_builtins _ "''id ''" "''acct''" "''-''" "''6110''" "'' 001''"]
    by (simp add: char_class_defs)
next
  have "\<forall>j\<le>length ''Math 10''. \<not> pattern_at (drop j ''Math 10'')"
    by (simp add: not_pattern_at_iff code_match_at_def code_digits_def char_class_defs
        le_Suc_eq all_conj_distrib)
  then show "getBaseCourseCode decimal_builtins (Str ''Math 10'') = ''MATH10''"
    using getBaseCourseCode_tiers[of "Str ''Math 10''" decimal_builtins]
    by (simp add: char_class_defs)
qed

text \<open>
  Claim C4. The claim has \<open>CIS 1200\<close>, \<open>cis1200\<close> and \<open>CIS-1200\<close> all normalize to
  \<open>CIS-1200\<close>. A department of three letters does not match the pattern of four letters
  and four digits, the cleaned string \<open>CIS1200\<close> has seven characters, and the branch for
  seven characters repeats its fourth character: the normalizer returns \<open>CIS1-1200\<close> for
  all three, where the branch for eight characters and the pattern cut their string in two
  parts.
\<close>

theorem three_letter_department_overlap:
  "getBaseCourseCode decimal_builtins (Str ''CIS 1200'') = ''CIS1-1200''
   \<and> getBaseCourseCode decimal_builtins (Str ''cis1200'') = ''CIS1-1200''
   \<and> getBaseCourseCode decimal_builtins (Str ''CIS-1200'') = ''CIS1-1200''"
  by (simp add: getBaseCourseCode_def code_match_at_def code_digits_def char_class_defs)

section \<open>Properties of the name resolver\<close>

lemma split_on_not_Nil: "split_on sep s \<noteq> []"
  by (induction s) (auto split: list.splits)

lemma split_on_first:
  "\<exists>ps. split_on sep s = takeWhile (\<lambda>c. c \<noteq> sep) s # ps"
  by (induction s) (auto split: list.splits)

lemma set_trim: "set (trim s) \<subseteq> set s"
proof -
  have "set (trim s) \<subseteq> set (dropWhile is_space s)"
    unfolding trim_def using set_dropWhileD by fastforce
  also have "\<dots> \<subseteq> set s" using set_dropWhileD by fastforce
  finally show ?thesis .
qed

lemma takeWhile_trim_right:
  assumes "c \<in> set g" "\<not> is_space c"
  shows "takeWhile (\<lambda>x. x \<noteq> c) (rev (dropWhile is_space (rev g))) = takeWhile (\<lambda>x. x \<noteq> c) g"
proof -
  from split_list_first[OF assms(1)] obtain a b where g: "g = a @ c # b" and a: "c \<notin> set a"
    by blast
  have "dropWhile is_space (rev g) = dropWhile is_space (rev b) @ c # rev a"
    using assms(2) g by (simp add: dropWhile_append3)
  then have "rev (dropWhile is_space (rev g)) = a @ c # rev (dropWhile is_space (rev b))"
    by simp
  moreover have "takeWhile (\<lambda>x. x \<noteq> c) (a @ c # ys) = a" for ys
    using a by (induction a) auto
  ultimately show ?thesis using g by simp
qed

lemma trim_leading: "trim (takeWhile is_space s @ t) = trim t"
proof -
  have "dropWhile is_space (takeWhile is_space s @ t) = dropWhile is_space t"
    by (induction s) auto
  then show ?thesis by (simp add: trim_def)
qed

lemma takeWhile_leading:
  assumes "\<not> is_space c"
  shows "takeWhile (\<lambda>x. x \<noteq> c) s =
         takeWhile is_space s @ takeWhile (\<lambda>x. x \<noteq> c) (dropWhile is_space s)"
  using assms by (induction s) auto

lemma comma_not_space: "\<not> is_space CHR '',''"
  by (simp add: is_space_def)

lemma before_comma_trim:
  assumes "CHR '','' \<in> set f"
  shows "trim (takeWhile (\<lambda>c. c \<noteq> CHR '','') (trim f)) = trim (takeWhile (\<lambda>c. c \<noteq> CHR '','') f)"
proof -
  have "CHR '','' \<in> set (dropWhile is_space f)"
    using assms comma_not_space by (induction f) auto
  then have "takeWhile (\<lambda>c. c \<noteq> CHR '','') (trim f)
             = takeWhile (\<lambda>c. c \<noteq> CHR '','') (dropWhile is_space f)"
    unfolding trim_def by (rule takeWhile_trim_right) (rule comma_not_space)
  moreover have "trim (takeWhile (\<lambda>c. c \<noteq> CHR '','') f)
             = trim (takeWhile (\<lambda>c. c \<noteq> CHR '','') (dropWhile is_space f))"
    by (subst takeWhile_leading[OF comma_not_space]) (rule trim_leading)
  ultimately show ?thesis by simp
qed

lemma in_set_dropWhile: "c \<in> set xs \<Longrightarrow> \<not> P c \<Longrightarrow> c \<in> set (dropWhile P xs)"
  by (induction xs) auto

lemma comma_in_trim: "CHR '','' \<in> set (trim f) \<longleftrightarrow> CHR '','' \<in> set f"
proof
  assume "CHR '','' \<in> set (trim f)" then show "CHR '','' \<in> set f" using set_trim by blast
next
  assume "CHR '','' \<in> set f"
  then have "CHR '','' \<in> set (rev (dropWhile is_space f))"
    by (simp add: in_set_dropWhile comma_not_space)
  then have "CHR '','' \<in> set (dropWhile is_space (rev (dropWhile is_space f)))"
    by (rule in_set_dropWhile) (rule comma_not_space)
  then show "CHR '','' \<in> set (trim f)" by (simp add: trim_def)
qed

text \<open>
  Claim C9, amended. A truthy override is returned as it is. Without one, a full name
  that contains a comma gives the text before its first comma, trimmed; a full name
  without a comma that is not blank is trimmed first, then split on single spaces, and
  gives the last part; a blank full name, and a full name that is not a string, give the
  empty string.
\<close>

theorem getLastName_contract:
  "(truthy override \<longrightarrow> getLastName fullName override = override)
   \<and> (\<not> truthy override \<and> fullName = Str f \<and> CHR '','' \<in> set f \<longrightarrow>
        getLastName fullName override = Str (trim (takeWhile (\<lambda>c. c \<noteq> CHR '','') f)))
   \<and> (\<not> truthy override \<and> fullName = Str f \<and> CHR '','' \<notin> set f \<and> trim f \<noteq> [] \<longrightarrow>
        getLastName fullName override = Str (last (split_on CHR '' '' (trim f))))
   \<and> (\<not> truthy override \<and> fullName = Str f \<and> trim f = [] \<longrightarrow>
        getLastName fullName override = Str [])
   \<and> (\<not> truthy override \<and> (\<forall>g. fullName \<noteq> Str g) \<longrightarrow>
        getLastName fullName override = Str [])"
proof (intro conjI impI)
  assume "truthy override"
  then show "getLastName fullName override = override" by (simp add: getLastName_def)
next
  assume a: "\<not> truthy override \<and> fullName = Str f \<and> CHR '','' \<in> set f"
  then have c: "CHR '','' \<in> set (trim f)" by (simp add: comma_in_trim)
  then have ne: "trim f \<noteq> []" by auto
  obtain ps where ps: "split_on CHR '','' (trim f) = takeWhile (\<lambda>c. c \<noteq> CHR '','') (trim f) # ps"
    using split_on_first by blast
  from a c ne ps have "getLastName fullName override
        = Str (trim (takeWhile (\<lambda>c. c \<noteq> CHR '','') (trim f)))"
    by (simp add: getLastName_def)
  with a show "getLastName fullName override = Str (trim (takeWhile (\<lambda>c. c \<noteq> CHR '','') f))"
    by (simp add: before_comma_trim)
next
  assume a: "\<not> truthy override \<and> fullName = Str f \<and> CHR '','' \<notin> set f \<and> trim f \<noteq> []"
  then have c: "CHR '','' \<notin> set (trim f)" by (simp add: comma_in_trim)
  obtain p ps where "split_on CHR '' '' (trim f) = p # ps"
    using split_on_not_Nil by (cases "split_on CHR '' '' (trim f)") auto
  with a c show "getLastName fullName override = Str (last (split_on CHR '' '' (trim f)))"
    by (simp add: getLastName_def)
next
  assume "\<not> truthy override \<and> fullName = Str f \<and> trim f = []"
  then show "getLastName fullName override = Str []" by (simp add: getLastName_def)
next
  assume "\<not> truthy override \<and> (\<forall>g. fullName \<noteq> Str g)"
  then show "getLastName fullName override = Str []"
    by (cases fullName) (simp_all add: getLastName_def)
qed

text \<open>The contract of C9 on the three examples of the specification, on a name with a
  trailing space, on a blank name and on a name that is a number.\<close>

theorem getLastName_contract_witness:
  "getLastName (Str ''Smith, John'') (Str []) = Str ''Smith''
   \<and> getLastName (Str ''John Smith'') (Str []) = Str ''Smith''
   \<and> getLastName (Str ''John Smith'') (Str ''Jones'') = Str ''Jones''
   \<and> getLastName (Str ''John Smith '') (Str []) = Str ''Smith''
   \<and> getLastName (Str ''  '') Undefined = Str []
   \<and> getLastName (Num (Fin 7)) Undefined = Str []"
proof (intro conjI)
  show "getLastName (Str ''Smith, John'') (Str []) = Str ''Smith''"
    using getLastName_contract[of "Str []" "Str ''Smith, John''" "''Smith, John''"]
    by (simp add: trim_def is_space_def)
  show "getLastName (Str ''John Smith'') (Str []) = Str ''Smith''"
    using getLastName_contract[of "Str []" "Str ''John Smith''" "''John Smith''"]
    by (simp add: trim_def is_space_def)
  show "getLastName (Str ''John Smith'') (Str ''Jones'') = Str ''Jones''"
    using getLastName_contract[of "Str ''Jones''" "Str ''John Smith''"] by simp
  show "getLastName (Str ''John Smith '') (Str []) = Str ''Smith''"
    using getLastName_contract[of "Str []" "Str ''John Smith ''" "''John Smith ''"]
    by (simp add: trim_def is_space_def)
  show "getLastName (Str ''  '') Undefined = Str []"
    using getLastName_contract[of Undefined "Str ''  ''" "''  ''"]
    by (simp add: trim_def is_space_def)
  show "getLastName (Num (Fin 7)) Undefined = Str []"
    using getLastName_contract[of Undefined "Num (Fin 7)"] by simp
qed

text \<open>Claim C9 as stated: splitting the full name itself on single spaces gives an empty
  last part for \<open>John Smith\<close> followed by a space, where the code returns \<open>Smith\<close>.\<close>

theorem resolveName_trailing_space_counterexample:
  "getLastName (Str ''John Smith '') (Str []) \<noteq> Str (resolveName_spec ''John Smith '' [])"
  by (simp add: getLastName_def resolveName_spec_def trim_def is_space_def)

section \<open>Properties of the conflict detector, the selection list and the total\<close>

lemma list_ex_inter: "list_ex (\<lambda>x. x \<in> set ys) xs \<longleftrightarrow> set xs \<inter> set ys \<noteq> {}"
  by (auto simp: list_ex_iff)

lemma checkConflict_sym: "checkConflict a b = checkConflict b a"
  by (auto simp: checkConflict_def Let_def list_ex_iff)

lemma checkConflict_cong:
  "Days a = Days a' \<Longrightarrow> Time a = Time a' \<Longrightarrow> Days b = Days b' \<Longrightarrow> Time b = Time b' \<Longrightarrow>
   checkConflict a b = checkConflict a' b'"
  by (simp add: checkConflict_def)

text \<open>
  Claim C1. Two sections conflict exactly when days and time are present on both, they
  share a day letter, and the parsed ranges overlap strictly: the start of each is before
  the end of the other. Ranges that touch do not conflict, and a section with absent days
  or absent time conflicts with nothing.
\<close>

theorem checkConflict_iff:
  "(checkConflict a b \<longleftrightarrow>
      \<not> absent (Days a) \<and> \<not> absent (Time a) \<and> \<not> absent (Days b) \<and> \<not> absent (Time b) \<and>
      set (text_of (Days a)) \<inter> set (text_of (Days b)) \<noteq> {} \<and>
      fst (parseTime (text_of (Time a))) < snd (parseTime (text_of (Time b))) \<and>
      fst (parseTime (text_of (Time b))) < snd (parseTime (text_of (Time a))))
   \<and> (snd (parseTime (text_of (Time a))) = fst (parseTime (text_of (Time b))) \<longrightarrow>
        \<not> checkConflict a b)
   \<and> (absent (Days a) \<or> absent (Time a) \<or> absent (Days b) \<or> absent (Time b) \<longrightarrow>
        \<not> checkConflict a b)"
  by (auto simp: checkConflict_def Let_def list_ex_inter)

lemmas time_eval_defs =
  parseTime_def convertToMinutes_def time_match_at_def digits_to_nat_def digit_val_def
  startsWith_ci_def is_digit_def is_upper_def is_lower_def is_letter_def is_alnum_def
  is_word_def toLowerCase_def lower_char_def

lemma parseTime_examples:
  "parseTime ''9:00am-10:00am'' = (540, 600)"
  "parseTime ''10:00am-11:00am'' = (600, 660)"
  "parseTime ''9:00am-10:30am'' = (540, 630)"
  by (simp_all add: time_eval_defs)

text \<open>The examples of C1: touching ranges on a shared day, overlapping ranges on a shared
  day, overlapping ranges on different days, and a section without a time.\<close>

theorem checkConflict_iff_witness:
  "\<not> checkConflict (example_section ''MW'' (Some ''9:00am-10:00am''))
                    (example_section ''WF'' (Some ''10:00am-11:00am''))
   \<and> checkConflict (example_section ''MW'' (Some ''9:00am-10:30am''))
                   (example_section ''WF'' (Some ''10:00am-11:00am''))
   \<and> \<not> checkConflict (example_section ''M'' (Some ''9:00am-10:30am''))
                     (example_section ''TR'' (Some ''10:00am-11:00am''))
   \<and> \<not> checkConflict (example_section ''MW'' None)
                     (example_section ''MW'' (Some ''10:00am-11:00am''))"
proof (intro conjI)
  show "\<not> checkConflict (example_section ''MW'' (Some ''9:00am-10:00am''))
                    (example_section ''WF'' (Some ''10:00am-11:00am''))"
    using checkConflict_iff[of "example_section ''MW'' (Some ''9:00am-10:00am'')"
                               "example_section ''WF'' (Some ''10:00am-11:00am'')"]
    by (simp add: example_section_def example_section_of_def parseTime_examples)
  show "checkConflict (example_section ''MW'' (Some ''9:00am-10:30am''))
                   (example_section ''WF'' (Some ''10:00am-11:00am''))"
    using checkConflict_iff[of "example_section ''MW'' (Some ''9:00am-10:30am'')"
                               "example_section ''WF'' (Some ''10:00am-11:00am'')"]
    by (simp add: example_section_def example_section_of_def parseTime_examples)
  show "\<not> checkConflict (example_section ''M'' (Some ''9:00am-10:30am''))
                     (example_section ''TR'' (Some ''10:00am-11:00am''))"
    using checkConflict_iff[of "example_section ''M'' (Some ''9:00am-10:30am'')"
                               "example_section ''TR'' (Some ''10:00am-11:00am'')"]
    by (simp add: example_section_def example_section_of_def parseTime_examples)
  show "\<not> checkConflict (example_section ''MW'' None)
                     (example_section ''MW'' (Some ''10:00am-11:00am''))"
    using checkConflict_iff[of "example_section ''MW'' None"
                               "example_section ''MW'' (Some ''10:00am-11:00am'')"]
    by (simp add: example_section_def example_section_of_def)
qed


lemma flag_fields [simp]:
  "Days (flag s) = Days s" "Time (flag s) = Time s" "isConflicting (flag s)"
  by (simp_all add: flag_def)

text \<open>One pass of the body of the inner loop.\<close>

lemma inner_body:
  assumes "i < j" "j < length l" "k < length l"
  defines "l' \<equiv> (if checkConflict (l ! i) (l ! j) then
                    (let l1 = l[i := flag (l ! i)] in l1[j := flag (l1 ! j)])
                  else l)"
  shows "length l' = length l"
    and "Days (l' ! k) = Days (l ! k)"
    and "Time (l' ! k) = Time (l ! k)"
    and "isConflicting (l' ! k) \<longleftrightarrow>
           isConflicting (l ! k) \<or> (checkConflict (l ! i) (l ! j) \<and> (k = i \<or> k = j))"
  using assms by (auto simp: Let_def nth_list_update)

lemma ex_from_split:
  "j < n \<Longrightarrow> (\<exists>m. j \<le> m \<and> m < n \<and> P m) \<longleftrightarrow> P j \<or> (\<exists>m. j + 1 \<le> m \<and> m < (n::nat) \<and> P m)"
proof
  assume "j < n" "\<exists>m. j \<le> m \<and> m < n \<and> P m"
  then obtain m where m: "j \<le> m" "m < n" "P m" by blast
  show "P j \<or> (\<exists>m. j + 1 \<le> m \<and> m < n \<and> P m)"
  proof (cases "m = j")
    case True
    with m show ?thesis by simp
  next
    case False
    with m have "j + 1 \<le> m" by simp
    with m show ?thesis by blast
  qed
next
  assume "j < n" "P j \<or> (\<exists>m. j + 1 \<le> m \<and> m < n \<and> P m)"
  then show "\<exists>m. j \<le> m \<and> m < n \<and> P m"
  proof (elim disjE exE)
    assume "P j" with \<open>j < n\<close> have "j \<le> j \<and> j < n \<and> P j" by simp
    then show ?thesis by blast
  next
    fix m assume "j + 1 \<le> m \<and> m < n \<and> P m"
    then have "j \<le> m \<and> m < n \<and> P m" by simp
    then show ?thesis by blast
  qed
qed

lemma inner_step_logic:
  fixes i j k :: nat
  assumes "i < j" and "F' \<longleftrightarrow> F0 \<or> (C j \<and> (k = i \<or> k = j))"
  shows "(F' \<or> (k = i \<and> E1) \<or> (j + 1 \<le> k \<and> C k)) \<longleftrightarrow>
         (F0 \<or> (k = i \<and> (C j \<or> E1)) \<or> (j \<le> k \<and> C k))"
proof (cases "k = j")
  case True
  with assms show ?thesis by auto
next
  case False
  then have "j + 1 \<le> k \<longleftrightarrow> j \<le> k" by auto
  with assms False show ?thesis by auto
qed

lemma inner_loop_props:
  "i < j \<Longrightarrow> k < length l \<Longrightarrow>
   Days (inner_loop i j l ! k) = Days (l ! k) \<and>
   Time (inner_loop i j l ! k) = Time (l ! k) \<and>
   (isConflicting (inner_loop i j l ! k) \<longleftrightarrow>
      isConflicting (l ! k) \<or>
      (k = i \<and> (\<exists>m. j \<le> m \<and> m < length l \<and> checkConflict (l ! i) (l ! m))) \<or>
      (j \<le> k \<and> checkConflict (l ! i) (l ! k)))"
proof (induction i j l rule: inner_loop.induct)
  case (1 i j l)
  show ?case
  proof (cases "j < length l")
    case False
    then have "inner_loop i j l = l" by (subst inner_loop.simps) simp
    with False "1.prems" show ?thesis by auto
  next
    case True
    define l' where "l' = (if checkConflict (l ! i) (l ! j) then
                    (let l1 = l[i := flag (l ! i)] in l1[j := flag (l1 ! j)])
                  else l)"
    have il: "i < length l" using "1.prems" True by simp
    note b = inner_body[OF "1.prems"(1) True, folded l'_def]
    have len: "length l' = length l" using b(1)[OF il] .
    have cc: "checkConflict (l' ! a) (l' ! c) = checkConflict (l ! a) (l ! c)"
      if "a < length l" "c < length l" for a c
      using b(2,3)[OF that(1)] b(2,3)[OF that(2)] by (rule checkConflict_cong)
    have unf: "inner_loop i j l = inner_loop i (j + 1) l'"
      using True by (subst inner_loop.simps) (simp add: l'_def)
    have ih: "Days (inner_loop i (j + 1) l' ! k) = Days (l' ! k) \<and>
        Time (inner_loop i (j + 1) l' ! k) = Time (l' ! k) \<and>
        (isConflicting (inner_loop i (j + 1) l' ! k) \<longleftrightarrow>
          isConflicting (l' ! k) \<or>
          (k = i \<and> (\<exists>m. j + 1 \<le> m \<and> m < length l' \<and> checkConflict (l' ! i) (l' ! m))) \<or>
          (j + 1 \<le> k \<and> checkConflict (l' ! i) (l' ! k)))"
      using "1.IH"[OF True, folded l'_def] "1.prems" len by simp
    have ex: "(\<exists>m. j + 1 \<le> m \<and> m < length l' \<and> checkConflict (l' ! i) (l' ! m)) \<longleftrightarrow>
              (\<exists>m. j + 1 \<le> m \<and> m < length l \<and> checkConflict (l ! i) (l ! m))"
      using cc[OF il] len by auto
    have ex2: "(\<exists>m. j \<le> m \<and> m < length l \<and> checkConflict (l ! i) (l ! m)) \<longleftrightarrow>
               checkConflict (l ! i) (l ! j) \<or>
               (\<exists>m. j + 1 \<le> m \<and> m < length l \<and> checkConflict (l ! i) (l ! m))"
      using True by (rule ex_from_split)
    have fl: "isConflicting (l' ! k) \<longleftrightarrow>
           isConflicting (l ! k) \<or> (checkConflict (l ! i) (l ! j) \<and> (k = i \<or> k = j))"
      using b(4)[OF "1.prems"(2)] .
    have dt: "Days (l' ! k) = Days (l ! k)" "Time (l' ! k) = Time (l ! k)"
      using b(2,3)[OF "1.prems"(2)] .
    have ck: "checkConflict (l' ! i) (l' ! k) = checkConflict (l ! i) (l ! k)"
      using cc[OF il "1.prems"(2)] .
    from ih have "isConflicting (inner_loop i (j + 1) l' ! k) \<longleftrightarrow>
          isConflicting (l' ! k) \<or>
          (k = i \<and> (\<exists>m. j + 1 \<le> m \<and> m < length l \<and> checkConflict (l ! i) (l ! m))) \<or>
          (j + 1 \<le> k \<and> checkConflict (l ! i) (l ! k))"
      unfolding ex ck by blast
    also have "\<dots> \<longleftrightarrow> isConflicting (l ! k) \<or>
          (k = i \<and> (checkConflict (l ! i) (l ! j) \<or>
                    (\<exists>m. j + 1 \<le> m \<and> m < length l \<and> checkConflict (l ! i) (l ! m)))) \<or>
          (j \<le> k \<and> checkConflict (l ! i) (l ! k))"
      using "1.prems"(1) fl by (rule inner_step_logic)
    finally have "isConflicting (inner_loop i (j + 1) l' ! k) \<longleftrightarrow>
          isConflicting (l ! k) \<or>
          (k = i \<and> (\<exists>m. j \<le> m \<and> m < length l \<and> checkConflict (l ! i) (l ! m))) \<or>
          (j \<le> k \<and> checkConflict (l ! i) (l ! k))"
      unfolding ex2 .
    with ih dt show ?thesis unfolding unf by simp
  qed
qed

lemma outer_loop_props:
  "k < length l \<Longrightarrow>
   Days (outer_loop i l ! k) = Days (l ! k) \<and>
   Time (outer_loop i l ! k) = Time (l ! k) \<and>
   length (outer_loop i l) = length l \<and>
   (isConflicting (outer_loop i l ! k) \<longleftrightarrow>
      isConflicting (l ! k) \<or>
      (\<exists>a b. i \<le> a \<and> a < b \<and> b < length l \<and> checkConflict (l ! a) (l ! b) \<and> (k = a \<or> k = b)))"
proof (induction i l rule: outer_loop.induct)
  case (1 i l)
  show ?case
  proof (cases "i < length l")
    case False
    then have "outer_loop i l = l" by (subst outer_loop.simps) simp
    with False "1.prems" show ?thesis by auto
  next
    case True
    define l' where "l' = inner_loop i (i + 1) l"
    have len: "length l' = length l" by (simp add: l'_def length_inner_loop)
    have p: "Days (l' ! c) = Days (l ! c) \<and> Time (l' ! c) = Time (l ! c) \<and>
       (isConflicting (l' ! c) \<longleftrightarrow>
          isConflicting (l ! c) \<or>
          (c = i \<and> (\<exists>m. i + 1 \<le> m \<and> m < length l \<and> checkConflict (l ! i) (l ! m))) \<or>
          (i + 1 \<le> c \<and> checkConflict (l ! i) (l ! c)))" if "c < length l" for c
      unfolding l'_def using inner_loop_props[of i "i + 1" c l] that by simp
    have cc: "checkConflict (l' ! a) (l' ! c) = checkConflict (l ! a) (l ! c)"
      if "a < length l" "c < length l" for a c
      using p[OF that(1)] p[OF that(2)] by (intro checkConflict_cong) simp_all
    have unf: "outer_loop i l = outer_loop (i + 1) l'"
      using True by (subst outer_loop.simps) (simp add: l'_def)
    have ih: "Days (outer_loop (i + 1) l' ! k) = Days (l' ! k) \<and>
        Time (outer_loop (i + 1) l' ! k) = Time (l' ! k) \<and>
        length (outer_loop (i + 1) l') = length l' \<and>
        (isConflicting (outer_loop (i + 1) l' ! k) \<longleftrightarrow>
           isConflicting (l' ! k) \<or>
           (\<exists>a b. i + 1 \<le> a \<and> a < b \<and> b < length l' \<and> checkConflict (l' ! a) (l' ! b) \<and>
                  (k = a \<or> k = b)))"
      using "1.IH"[OF True, folded l'_def] "1.prems" len by simp
    have ex: "(\<exists>a b. i + 1 \<le> a \<and> a < b \<and> b < length l' \<and> checkConflict (l' ! a) (l' ! b) \<and>
                  (k = a \<or> k = b)) \<longleftrightarrow>
              (\<exists>a b. i + 1 \<le> a \<and> a < b \<and> b < length l \<and> checkConflict (l ! a) (l ! b) \<and>
                  (k = a \<or> k = b))"
    proof -
      have "a < b \<and> b < length l \<and> checkConflict (l' ! a) (l' ! b) \<longleftrightarrow>
            a < b \<and> b < length l \<and> checkConflict (l ! a) (l ! b)" for a b
        using cc[of a b] by auto
      then show ?thesis unfolding len by (simp only: conj_assoc[symmetric]) 
    qed
    have split: "(\<exists>a b. i \<le> a \<and> a < b \<and> b < length l \<and> checkConflict (l ! a) (l ! b) \<and>
                  (k = a \<or> k = b)) \<longleftrightarrow>
              (\<exists>b. i < b \<and> b < length l \<and> checkConflict (l ! i) (l ! b) \<and> (k = i \<or> k = b)) \<or>
              (\<exists>a b. i + 1 \<le> a \<and> a < b \<and> b < length l \<and> checkConflict (l ! a) (l ! b) \<and>
                  (k = a \<or> k = b))"
      (is "?L \<longleftrightarrow> ?M \<or> ?R")
    proof
      assume ?L
      then obtain a b where ab: "i \<le> a" "a < b" "b < length l" "checkConflict (l ! a) (l ! b)"
        "k = a \<or> k = b" by blast
      show "?M \<or> ?R"
      proof (cases "a = i")
        case True
        with ab have ?M by blast
        then show ?thesis ..
      next
        case False
        with ab have "i + 1 \<le> a" by simp
        with ab have ?R by blast
        then show ?thesis ..
      qed
    next
      assume "?M \<or> ?R"
      then show ?L
      proof
        assume ?M
        then obtain b where "i < b" "b < length l" "checkConflict (l ! i) (l ! b)" "k = i \<or> k = b"
          by blast
        then have "i \<le> i \<and> i < b \<and> b < length l \<and> checkConflict (l ! i) (l ! b) \<and> (k = i \<or> k = b)"
          by simp
        then show ?L by blast
      next
        assume ?R
        then obtain a b where "i + 1 \<le> a" "a < b" "b < length l" "checkConflict (l ! a) (l ! b)"
          "k = a \<or> k = b" by blast
        then have "i \<le> a \<and> a < b \<and> b < length l \<and> checkConflict (l ! a) (l ! b) \<and> (k = a \<or> k = b)"
          by simp
        then show ?L by blast
      qed
    qed
    have m: "(\<exists>b. i < b \<and> b < length l \<and> checkConflict (l ! i) (l ! b) \<and> (k = i \<or> k = b)) \<longleftrightarrow>
             (k = i \<and> (\<exists>m. i + 1 \<le> m \<and> m < length l \<and> checkConflict (l ! i) (l ! m))) \<or>
             (i + 1 \<le> k \<and> checkConflict (l ! i) (l ! k))"
      using "1.prems" by (auto simp: Suc_le_eq)
    from ih have "isConflicting (outer_loop (i + 1) l' ! k) \<longleftrightarrow>
           isConflicting (l' ! k) \<or>
           (\<exists>a b. i + 1 \<le> a \<and> a < b \<and> b < length l \<and> checkConflict (l ! a) (l ! b) \<and>
                  (k = a \<or> k = b))"
      unfolding ex by blast
    also have "\<dots> \<longleftrightarrow> isConflicting (l ! k) \<or>
           ((k = i \<and> (\<exists>m. i + 1 \<le> m \<and> m < length l \<and> checkConflict (l ! i) (l ! m))) \<or>
            (i + 1 \<le> k \<and> checkConflict (l ! i) (l ! k))) \<or>
           (\<exists>a b. i + 1 \<le> a \<and> a < b \<and> b < length l \<and> checkConflict (l ! a) (l ! b) \<and>
                  (k = a \<or> k = b))"
      using p[OF "1.prems"] by blast
    also have "\<dots> \<longleftrightarrow> isConflicting (l ! k) \<or>
           (\<exists>a b. i \<le> a \<and> a < b \<and> b < length l \<and> checkConflict (l ! a) (l ! b) \<and> (k = a \<or> k = b))"
      unfolding split m by blast
    finally show ?thesis
      unfolding unf using ih p[OF "1.prems"] len by simp
  qed
qed


lemma init_checked_fields [simp]:
  "Days (init_checked s) = Days s" "Time (init_checked s) = Time s"
  "\<not> isConflicting (init_checked s)" "Price (init_checked s) = Price s"
  by (simp_all add: init_checked_def)

lemma conflict_with_other:
  fixes k n :: nat
  assumes sym: "\<And>a b. C a b = C b a" and k: "k < n"
  shows "(\<exists>a b. 0 \<le> a \<and> a < b \<and> b < n \<and> C a b \<and> (k = a \<or> k = b)) \<longleftrightarrow>
         (\<exists>j<n. j \<noteq> k \<and> C k j)"
proof
  assume "\<exists>a b. 0 \<le> a \<and> a < b \<and> b < n \<and> C a b \<and> (k = a \<or> k = b)"
  then obtain a b where ab: "a < b" "b < n" "C a b" "k = a \<or> k = b" by blast
  from ab(4) show "\<exists>j<n. j \<noteq> k \<and> C k j"
  proof
    assume "k = a"
    with ab have "b < n \<and> b \<noteq> k \<and> C k b" by simp
    then show ?thesis by blast
  next
    assume "k = b"
    with ab sym[of a b] have "a < n \<and> a \<noteq> k \<and> C k a" by simp
    then show ?thesis by blast
  qed
next
  assume "\<exists>j<n. j \<noteq> k \<and> C k j"
  then obtain j where j: "j < n" "j \<noteq> k" "C k j" by blast
  show "\<exists>a b. 0 \<le> a \<and> a < b \<and> b < n \<and> C a b \<and> (k = a \<or> k = b)"
  proof (cases "k < j")
    case True
    with j have "0 \<le> k \<and> k < j \<and> j < n \<and> C k j \<and> (k = k \<or> k = j)" by simp
    then show ?thesis by blast
  next
    case False
    with j k sym[of k j] have "0 \<le> j \<and> j < k \<and> k < n \<and> C j k \<and> (k = j \<or> k = k)" by simp
    then show ?thesis by blast
  qed
qed

lemma flagged_iff:
  assumes "k < length list"
  defines "l \<equiv> outer_loop 0 (map init_checked list)"
  shows "isConflicting (l ! k) \<longleftrightarrow> (\<exists>j<length l. j \<noteq> k \<and> checkConflict (l ! k) (l ! j))"
proof -
  define l0 where "l0 = map init_checked list"
  have k0: "k < length l0" using assms(1) by (simp add: l0_def)
  have props: "Days (l ! c) = Days (l0 ! c) \<and> Time (l ! c) = Time (l0 ! c) \<and>
      length l = length l0 \<and>
      (isConflicting (l ! c) \<longleftrightarrow> isConflicting (l0 ! c) \<or>
        (\<exists>a b. 0 \<le> a \<and> a < b \<and> b < length l0 \<and> checkConflict (l0 ! a) (l0 ! b) \<and> (c = a \<or> c = b)))"
    if "c < length l0" for c
    unfolding l_def l0_def[symmetric] using outer_loop_props[OF that, of 0] .
  have len: "length l = length l0" using props[OF k0] by simp
  have cc: "checkConflict (l ! a) (l ! b) = checkConflict (l0 ! a) (l0 ! b)"
    if "a < length l0" "b < length l0" for a b
    using props[OF that(1)] props[OF that(2)] by (intro checkConflict_cong) simp_all
  have nf: "\<not> isConflicting (l0 ! k)" using assms(1) by (simp add: l0_def)
  have "isConflicting (l ! k) \<longleftrightarrow>
        (\<exists>a b. 0 \<le> a \<and> a < b \<and> b < length l0 \<and> checkConflict (l0 ! a) (l0 ! b) \<and> (k = a \<or> k = b))"
    using props[OF k0] nf by blast
  also have "\<dots> \<longleftrightarrow> (\<exists>j<length l0. j \<noteq> k \<and> checkConflict (l0 ! k) (l0 ! j))"
    using _ k0 by (rule conflict_with_other) (rule checkConflict_sym)
  also have "\<dots> \<longleftrightarrow> (\<exists>j<length l. j \<noteq> k \<and> checkConflict (l ! k) (l ! j))"
    unfolding len using cc[OF k0] by auto
  finally show ?thesis .
qed

text \<open>
  Claim C2. \<open>checkConflict\<close> is symmetric, and after the two loops over any list of chosen
  sections an entry is flagged exactly when it conflicts with an entry at another position
  of the list; this holds in particular for the selection list.
\<close>

theorem conflict_symmetric_and_flags:
  "checkConflict a b = checkConflict b a
   \<and> (k < length list \<longrightarrow>
        (isConflicting (outer_loop 0 (map init_checked list) ! k) \<longleftrightarrow>
           (\<exists>j<length (outer_loop 0 (map init_checked list)). j \<noteq> k \<and>
               checkConflict (outer_loop 0 (map init_checked list) ! k)
                             (outer_loop 0 (map init_checked list) ! j))))
   \<and> (i < length (selectedList sel courses) \<longrightarrow>
        (isConflicting (selectedList sel courses ! i) \<longleftrightarrow>
           (\<exists>j<length (selectedList sel courses). j \<noteq> i \<and>
               checkConflict (selectedList sel courses ! i) (selectedList sel courses ! j))))"
proof (intro conjI impI)
  show "checkConflict a b = checkConflict b a" by (rule checkConflict_sym)
next
  assume "k < length list"
  then show "isConflicting (outer_loop 0 (map init_checked list) ! k) \<longleftrightarrow>
           (\<exists>j<length (outer_loop 0 (map init_checked list)). j \<noteq> k \<and>
               checkConflict (outer_loop 0 (map init_checked list) ! k)
                             (outer_loop 0 (map init_checked list) ! j))"
    by (rule flagged_iff)
next
  assume a: "i < length (selectedList sel courses)"
  have "length (outer_loop 0 l) = length l" for l
  proof (cases l)
    case Nil
    then show ?thesis by (subst outer_loop.simps) simp
  next
    case (Cons x xs)
    then have "0 < length l" by simp
    from outer_loop_props[OF this, of 0] show ?thesis by simp
  qed
  with a have "i < length (selection sel courses)" by (simp add: selectedList_def)
  then show "isConflicting (selectedList sel courses ! i) \<longleftrightarrow>
           (\<exists>j<length (selectedList sel courses). j \<noteq> i \<and>
               checkConflict (selectedList sel courses ! i) (selectedList sel courses ! j))"
    unfolding selectedList_def by (rule flagged_iff)
qed

lemma example_flags:
  "map isConflicting (selectedList example_selection example_catalog) = [True, True, False]"
  by code_simp

text \<open>C2 on the sample catalog: of the three selected sections the first conflicts with
  another one, and the third with none.\<close>

theorem conflict_symmetric_and_flags_witness:
  "(\<exists>j<length (selectedList example_selection example_catalog). j \<noteq> 0 \<and>
       checkConflict (selectedList example_selection example_catalog ! 0)
                     (selectedList example_selection example_catalog ! j))
   \<and> \<not> (\<exists>j<length (selectedList example_selection example_catalog). j \<noteq> 2 \<and>
       checkConflict (selectedList example_selection example_catalog ! 2)
                     (selectedList example_selection example_catalog ! j))"
proof -
  have len: "length (selectedList example_selection example_catalog) = 3"
    using arg_cong[OF example_flags, of length] by simp
  have f0: "isConflicting (selectedList example_selection example_catalog ! 0)"
    and f2: "\<not> isConflicting (selectedList example_selection example_catalog ! 2)"
    using arg_cong[OF example_flags, of "\<lambda>l. l ! 0"] arg_cong[OF example_flags, of "\<lambda>l. l ! 2"] len
    by simp_all
  from conflict_symmetric_and_flags[where i=0 and sel=example_selection and courses=example_catalog,
      THEN conjunct2, THEN conjunct2] f0 len
  have "\<exists>j<length (selectedList example_selection example_catalog). j \<noteq> 0 \<and>
       checkConflict (selectedList example_selection example_catalog ! 0)
                     (selectedList example_selection example_catalog ! j)" by simp
  moreover
  from conflict_symmetric_and_flags[where i=2 and sel=example_selection and courses=example_catalog,
      THEN conjunct2, THEN conjunct2] f2 len
  have "\<not> (\<exists>j<length (selectedList example_selection example_catalog). j \<noteq> 2 \<and>
       checkConflict (selectedList example_selection example_catalog ! 2)
                     (selectedList example_selection example_catalog ! j))" by simp
  ultimately show ?thesis by blast
qed


















section \<open>Properties of the catalog builder\<close>

lemma courseMap_from_append:
  "courseMap_from B pm acc (xs @ ys) =
     (case courseMap_from B pm acc xs of
        Inl e \<Rightarrow> Inl e
      | Inr acc' \<Rightarrow> courseMap_from B pm acc' ys)"
  by (induction xs arbitrary: acc) (auto split: sum.splits)

lemma step_dropped:
  "getBaseCourseCode B (Course_ID r) = [] \<Longrightarrow> courseMap_step B pm acc r = Inr acc"
  by (simp add: courseMap_step_def)

text \<open>
  Claim C7. A row whose identifier normalizes to the empty string is dropped: its step
  returns the accumulated object as it is and does not raise, so it creates no course and
  no section, and the catalog built from the rows around it is the one built without it,
  whatever its other fields are.
\<close>

theorem dropped_row:
  "getBaseCourseCode B (Course_ID r) = [] \<longrightarrow>
     courseMap_step B pm acc r = Inr acc
     \<and> courseMap_from B pm acc (rows1 @ r # rows2) = courseMap_from B pm acc (rows1 @ rows2)
     \<and> courseMap B pm (rows1 @ r # rows2) = courseMap B pm (rows1 @ rows2)"
proof
  assume a: "getBaseCourseCode B (Course_ID r) = []"
  have "courseMap_from B pm acc0 (rows1 @ r # rows2) = courseMap_from B pm acc0 (rows1 @ rows2)"
    for acc0
    by (simp add: courseMap_from_append step_dropped[OF a] split: sum.splits)
  then show "courseMap_step B pm acc r = Inr acc
     \<and> courseMap_from B pm acc (rows1 @ r # rows2) = courseMap_from B pm acc (rows1 @ rows2)
     \<and> courseMap B pm (rows1 @ r # rows2) = courseMap B pm (rows1 @ rows2)"
    by (simp add: step_dropped[OF a] courseMap_def)
qed

lemma add_instructor_frame:
  assumes "add_instructor B r secs = Inr secs'" "map_of secs k = Some s"
  shows "map_of secs' k =
           Some (s\<lparr>instructors := instructors s @
                     (if ToString B (Section_ID r) = k then [new_instructor B r] else [])\<rparr>)"
  using assms
  by (auto simp: add_instructor_def Let_def update_conv' split: option.splits if_splits)

lemma add_instructor_new:
  assumes "add_instructor B r secs = Inr secs'" "map_of secs (ToString B (Section_ID r)) = None"
  shows "map_of secs' (ToString B (Section_ID r)) =
           Some ((new_section r)\<lparr>instructors := [new_instructor B r]\<rparr>)"
  using assms
  by (auto simp: add_instructor_def Let_def update_conv' split: option.splits if_splits)

lemma add_instructor_raises:
  "add_instructor B r secs = Inl e \<Longrightarrow> ToString B (Section_ID r) \<in> set prototype_names"
  by (auto simp: add_instructor_def Let_def split: option.splits if_splits)

text \<open>What a step does to the entry of a code: nothing for a row of another code, and
  for a row of that code the body of \<open>if (row.Section_ID)\<close> on the sections of its course.\<close>

lemma step_other_code:
  assumes "courseMap_step B pm acc r = Inr acc'" "getBaseCourseCode B (Course_ID r) \<noteq> code"
  shows "map_of acc' code = map_of acc code"
  using assms
  by (auto simp: courseMap_step_def Let_def update_conv' split: option.splits if_splits sum.splits)

lemma step_same_code:
  assumes "courseMap_step B pm acc r = Inr acc'" "getBaseCourseCode B (Course_ID r) = code"
    "map_of acc code = Some c" "code \<noteq> []"
  shows "map_of acc' code =
           Some (if truthy (Section_ID r)
                 then c\<lparr>sections := (case add_instructor B r (sections c) of Inr secs \<Rightarrow> secs
                                                                           | Inl e \<Rightarrow> sections c)\<rparr>
                 else c)
         \<and> (truthy (Section_ID r) \<longrightarrow> (\<exists>secs. add_instructor B r (sections c) = Inr secs))"
  using assms
  by (auto simp: courseMap_step_def Let_def update_conv' split: option.splits if_splits sum.splits)


lemma step_frame:
  assumes st: "courseMap_step B pm acc r = Inr acc'" and c: "map_of acc code = Some c"
    and ne: "code \<noteq> []"
  shows "\<exists>secs'. map_of acc' code = Some (c\<lparr>sections := secs'\<rparr>) \<and>
           (\<forall>k s. map_of (sections c) k = Some s \<longrightarrow>
              map_of secs' k =
                Some (s\<lparr>instructors := instructors s @
                        (if getBaseCourseCode B (Course_ID r) = code \<and> truthy (Section_ID r) \<and>
                            ToString B (Section_ID r) = k
                         then [new_instructor B r] else [])\<rparr>))"
proof (cases "getBaseCourseCode B (Course_ID r) = code")
  case False
  with step_other_code[OF st] c have "map_of acc' code = Some (c\<lparr>sections := sections c\<rparr>)"
    by simp
  moreover have "\<forall>k s. map_of (sections c) k = Some s \<longrightarrow>
              map_of (sections c) k =
                Some (s\<lparr>instructors := instructors s @
                        (if getBaseCourseCode B (Course_ID r) = code \<and> truthy (Section_ID r) \<and>
                            ToString B (Section_ID r) = k
                         then [new_instructor B r] else [])\<rparr>)"
    using False by simp
  ultimately show ?thesis by blast
next
  case True
  note sc = step_same_code[OF st True c ne]
  show ?thesis
  proof (cases "truthy (Section_ID r)")
    case False
    with sc have "map_of acc' code = Some (c\<lparr>sections := sections c\<rparr>)" by simp
    moreover have "\<forall>k s. map_of (sections c) k = Some s \<longrightarrow>
              map_of (sections c) k =
                Some (s\<lparr>instructors := instructors s @
                        (if getBaseCourseCode B (Course_ID r) = code \<and> truthy (Section_ID r) \<and>
                            ToString B (Section_ID r) = k
                         then [new_instructor B r] else [])\<rparr>)"
      using False by simp
    ultimately show ?thesis by blast
  next
    case t: True
    with sc obtain secs where secs: "add_instructor B r (sections c) = Inr secs" by blast
    with sc t have "map_of acc' code = Some (c\<lparr>sections := secs\<rparr>)" by simp
    moreover have "\<forall>k s. map_of (sections c) k = Some s \<longrightarrow>
              map_of secs k =
                Some (s\<lparr>instructors := instructors s @
                        (if getBaseCourseCode B (Course_ID r) = code \<and> truthy (Section_ID r) \<and>
                            ToString B (Section_ID r) = k
                         then [new_instructor B r] else [])\<rparr>)"
      using add_instructor_frame[OF secs] True t by simp
    ultimately show ?thesis by blast
  qed
qed

lemma build_frame:
  "courseMap_from B pm acc rows = Inr acc' \<Longrightarrow> map_of acc code = Some c \<Longrightarrow> code \<noteq> [] \<Longrightarrow>
   \<exists>secs'. map_of acc' code = Some (c\<lparr>sections := secs'\<rparr>) \<and>
           (\<forall>k s. map_of (sections c) k = Some s \<longrightarrow>
              map_of secs' k =
                Some (s\<lparr>instructors := instructors s @
                        map (new_instructor B)
                          (filter (\<lambda>r. getBaseCourseCode B (Course_ID r) = code \<and>
                                        truthy (Section_ID r) \<and> ToString B (Section_ID r) = k)
                                  rows)\<rparr>))"
proof (induction rows arbitrary: acc c)
  case Nil
  then have "map_of acc' code = Some (c\<lparr>sections := sections c\<rparr>)" by simp
  then show ?case by (intro exI[of _ "sections c"]) simp
next
  case (Cons r rows)
  from Cons.prems(1) obtain acc1 where st: "courseMap_step B pm acc r = Inr acc1"
    and rest: "courseMap_from B pm acc1 rows = Inr acc'"
    by (auto split: sum.splits)
  from step_frame[OF st Cons.prems(2,3)] obtain secs1 where
    c1: "map_of acc1 code = Some (c\<lparr>sections := secs1\<rparr>)" and
    f1: "\<And>k s. map_of (sections c) k = Some s \<Longrightarrow>
              map_of secs1 k =
                Some (s\<lparr>instructors := instructors s @
                        (if getBaseCourseCode B (Course_ID r) = code \<and> truthy (Section_ID r) \<and>
                            ToString B (Section_ID r) = k
                         then [new_instructor B r] else [])\<rparr>)"
    by blast
  from Cons.IH[OF rest c1 Cons.prems(3)] obtain secs' where
    c2: "map_of acc' code = Some (c\<lparr>sections := secs1\<rparr>\<lparr>sections := secs'\<rparr>)" and
    f2: "\<And>k s. map_of secs1 k = Some s \<Longrightarrow>
              map_of secs' k =
                Some (s\<lparr>instructors := instructors s @
                        map (new_instructor B)
                          (filter (\<lambda>r. getBaseCourseCode B (Course_ID r) = code \<and>
                                        truthy (Section_ID r) \<and> ToString B (Section_ID r) = k)
                                  rows)\<rparr>)"
    by auto
  have "map_of secs' k =
                Some (s\<lparr>instructors := instructors s @
                        map (new_instructor B)
                          (filter (\<lambda>r. getBaseCourseCode B (Course_ID r) = code \<and>
                                        truthy (Section_ID r) \<and> ToString B (Section_ID r) = k)
                                  (r # rows))\<rparr>)"
    if "map_of (sections c) k = Some s" for k s
    using f2[OF f1[OF that]] by simp
  with c2 show ?case by (intro exI[of _ secs']) simp
qed


lemma build_other_code:
  "courseMap_from B pm acc rows = Inr acc' \<Longrightarrow>
   \<forall>x\<in>set rows. getBaseCourseCode B (Course_ID x) \<noteq> code \<Longrightarrow>
   map_of acc' code = map_of acc code"
proof (induction rows arbitrary: acc)
  case Nil
  then show ?case by simp
next
  case (Cons r rows)
  from Cons.prems(1) obtain acc1 where st: "courseMap_step B pm acc r = Inr acc1"
    and rest: "courseMap_from B pm acc1 rows = Inr acc'"
    by (auto split: sum.splits)
  from Cons.prems(2) have "map_of acc1 code = map_of acc code"
    by (intro step_other_code[OF st]) simp
  with Cons.IH[OF rest] Cons.prems(2) show ?case by simp
qed

lemma step_creates:
  assumes "courseMap_step B pm acc r = Inr acc'" "getBaseCourseCode B (Course_ID r) = code"
    "code \<noteq> []" "map_of acc code = None"
  shows "\<exists>secs. map_of acc' code = Some ((new_course B pm code r)\<lparr>sections := secs\<rparr>)"
  using assms
  by (auto simp: courseMap_step_def Let_def update_conv' split: option.splits if_splits sum.splits)
    (metis course.surjective course.update_convs(8) old.unit.exhaust)

lemma step_raises:
  "courseMap_step B pm acc r = Inl e \<Longrightarrow>
   truthy (Section_ID r) \<and> ToString B (Section_ID r) \<in> set prototype_names"
  by (auto simp: courseMap_step_def Let_def split: option.splits if_splits sum.splits
      dest: add_instructor_raises)

lemma or_zero_idem: "or_zero (or_zero n) = or_zero n"
  by (cases n) (auto simp: or_zero_def)

lemma priceMap_fold_lookup:
  "code \<noteq> [] \<Longrightarrow>
   map_of (foldl (priceMap_step B) acc prows) code =
     (if filter (\<lambda>r. getBaseCourseCode B (price_Course_ID r) = code) prows = []
      then map_of acc code
      else Some (or_zero (parseFloat B (price_Average_Price
                   (last (filter (\<lambda>r. getBaseCourseCode B (price_Course_ID r) = code) prows))))))"
proof (induction prows arbitrary: acc rule: rev_induct)
  case Nil
  then show ?case by simp
next
  case (snoc x xs)
  show ?case
  proof (cases "getBaseCourseCode B (price_Course_ID x) = code")
    case True
    with snoc.prems show ?thesis
      by (simp add: priceMap_step_def update_conv')
  next
    case False
    then have "map_of (priceMap_step B a x) code = map_of a code" for a
      by (simp add: priceMap_step_def Let_def update_conv')
    with False snoc show ?thesis by simp
  qed
qed

lemma price_of_priceMap:
  "code \<noteq> [] \<Longrightarrow>
   price_of (priceMap B prows) code =
     (if filter (\<lambda>r. getBaseCourseCode B (price_Course_ID r) = code) prows = [] then Fin 0
      else or_zero (parseFloat B (price_Average_Price
             (last (filter (\<lambda>r. getBaseCourseCode B (price_Course_ID r) = code) prows)))))"
  by (simp add: price_of_def priceMap_def priceMap_fold_lookup or_zero_idem)


lemma build_succeeds:
  "list_all (\<lambda>r. ToString B (Section_ID r) \<notin> set prototype_names) rows \<Longrightarrow>
   \<exists>acc'. courseMap_from B pm acc rows = Inr acc'"
proof (induction rows arbitrary: acc)
  case Nil
  then show ?case by simp
next
  case (Cons r rows)
  have "\<exists>acc1. courseMap_step B pm acc r = Inr acc1"
  proof (cases "courseMap_step B pm acc r")
    case (Inl e)
    from step_raises[OF this] Cons.prems show ?thesis by simp
  next
    case (Inr a)
    then show ?thesis by blast
  qed
  then obtain acc1 where "courseMap_step B pm acc r = Inr acc1" by blast
  moreover from Cons.IH[of acc1] Cons.prems obtain acc' where
    "courseMap_from B pm acc1 rows = Inr acc'" by auto
  ultimately show ?case by simp
qed

text \<open>
  Claim C6. When a row creates the course of its code, each of the four ratings is null
  if the field of the row is falsy (absent, empty, 0) and the parsed float of the field
  otherwise; the price is the entry of the price map for the code, and 0 when the map has
  none or the entry is 0 or NaN. In the price map built from the price rows the entry of a
  code is the parsed price of the last price row with that code, with 0 for a price that
  parses to NaN. The course keeps these values to the end of the build. A step raises only
  for a section id that names an inherited property, never for a numeric field.
\<close>

theorem course_creation:
  "(courseMap_step B pm acc r = Inr acc' \<and> getBaseCourseCode B (Course_ID r) = code \<and>
    code \<noteq> [] \<and> map_of acc code = None \<longrightarrow>
      (\<exists>c. map_of acc' code = Some c \<and>
           course_rating c = (if truthy (base_course_quality r)
                              then Some (parseFloat B (base_course_quality r)) else None) \<and>
           instructor_rating c = (if truthy (base_instructor_quality r)
                                  then Some (parseFloat B (base_instructor_quality r)) else None) \<and>
           difficulty_rating c = (if truthy (base_difficulty r)
                                  then Some (parseFloat B (base_difficulty r)) else None) \<and>
           work_rating c = (if truthy (base_work_required r)
                            then Some (parseFloat B (base_work_required r)) else None) \<and>
           Average_Price c = (case map_of pm code of
                                None \<Rightarrow> Fin 0
                              | Some p \<Rightarrow> if falsy_num p then Fin 0 else p)))
   \<and> (code \<noteq> [] \<longrightarrow>
        price_of (priceMap B prows) code =
          (if filter (\<lambda>x. getBaseCourseCode B (price_Course_ID x) = code) prows = [] then Fin 0
           else (let v = parseFloat B (price_Average_Price
                           (last (filter (\<lambda>x. getBaseCourseCode B (price_Course_ID x) = code) prows)))
                 in if falsy_num v then Fin 0 else v)))
   \<and> (courseMap B pm (pre @ r # post) = Inr final \<and>
       (\<forall>x\<in>set pre. getBaseCourseCode B (Course_ID x) \<noteq> code) \<and>
       getBaseCourseCode B (Course_ID r) = code \<and> code \<noteq> [] \<longrightarrow>
      (\<exists>c. map_of final code = Some c \<and>
           course_rating c = (if truthy (base_course_quality r)
                              then Some (parseFloat B (base_course_quality r)) else None) \<and>
           instructor_rating c = (if truthy (base_instructor_quality r)
                                  then Some (parseFloat B (base_instructor_quality r)) else None) \<and>
           difficulty_rating c = (if truthy (base_difficulty r)
                                  then Some (parseFloat B (base_difficulty r)) else None) \<and>
           work_rating c = (if truthy (base_work_required r)
                            then Some (parseFloat B (base_work_required r)) else None) \<and>
           Average_Price c = price_of pm code))
   \<and> (courseMap_step B pm acc r = Inl e \<longrightarrow>
        truthy (Section_ID r) \<and> ToString B (Section_ID r) \<in> set prototype_names)"
proof (intro conjI impI)
  assume a: "courseMap_step B pm acc r = Inr acc' \<and> getBaseCourseCode B (Course_ID r) = code \<and>
    code \<noteq> [] \<and> map_of acc code = None"
  then obtain secs where
    "map_of acc' code = Some ((new_course B pm code r)\<lparr>sections := secs\<rparr>)"
    using step_creates by blast
  then show "\<exists>c. map_of acc' code = Some c \<and>
           course_rating c = (if truthy (base_course_quality r)
                              then Some (parseFloat B (base_course_quality r)) else None) \<and>
           instructor_rating c = (if truthy (base_instructor_quality r)
                                  then Some (parseFloat B (base_instructor_quality r)) else None) \<and>
           difficulty_rating c = (if truthy (base_difficulty r)
                                  then Some (parseFloat B (base_difficulty r)) else None) \<and>
           work_rating c = (if truthy (base_work_required r)
                            then Some (parseFloat B (base_work_required r)) else None) \<and>
           Average_Price c = (case map_of pm code of
                                None \<Rightarrow> Fin 0
                              | Some p \<Rightarrow> if falsy_num p then Fin 0 else p)"
    by (simp add: new_course_def rating_def price_of_def or_zero_def split: option.split)
next
  assume "code \<noteq> []"
  then show "price_of (priceMap B prows) code =
          (if filter (\<lambda>x. getBaseCourseCode B (price_Course_ID x) = code) prows = [] then Fin 0
           else (let v = parseFloat B (price_Average_Price
                           (last (filter (\<lambda>x. getBaseCourseCode B (price_Course_ID x) = code) prows)))
                 in if falsy_num v then Fin 0 else v))"
    by (simp add: price_of_priceMap or_zero_def Let_def)
next
  assume a: "courseMap B pm (pre @ r # post) = Inr final \<and>
       (\<forall>x\<in>set pre. getBaseCourseCode B (Course_ID x) \<noteq> code) \<and>
       getBaseCourseCode B (Course_ID r) = code \<and> code \<noteq> []"
  then obtain acc0 where p0: "courseMap_from B pm [] pre = Inr acc0"
    and r0: "courseMap_from B pm acc0 (r # post) = Inr final"
    by (auto simp: courseMap_def courseMap_from_append split: sum.splits)
  from r0 obtain acc1 where s1: "courseMap_step B pm acc0 r = Inr acc1"
    and r1: "courseMap_from B pm acc1 post = Inr final"
    by (auto split: sum.splits)
  from build_other_code[OF p0] a have "map_of acc0 code = None" by simp
  with step_creates[OF s1] a obtain secs where
    c1: "map_of acc1 code = Some ((new_course B pm code r)\<lparr>sections := secs\<rparr>)" by blast
  from build_frame[OF r1 c1] a obtain secs' where
    "map_of final code = Some ((new_course B pm code r)\<lparr>sections := secs\<rparr>\<lparr>sections := secs'\<rparr>)"
    by blast
  then show "\<exists>c. map_of final code = Some c \<and>
           course_rating c = (if truthy (base_course_quality r)
                              then Some (parseFloat B (base_course_quality r)) else None) \<and>
           instructor_rating c = (if truthy (base_instructor_quality r)
                                  then Some (parseFloat B (base_instructor_quality r)) else None) \<and>
           difficulty_rating c = (if truthy (base_difficulty r)
                                  then Some (parseFloat B (base_difficulty r)) else None) \<and>
           work_rating c = (if truthy (base_work_required r)
                            then Some (parseFloat B (base_work_required r)) else None) \<and>
           Average_Price c = price_of pm code"
    by (simp add: new_course_def rating_def)
next
  assume "courseMap_step B pm acc r = Inl e"
  then show "truthy (Section_ID r)" using step_raises by blast
next
  assume "courseMap_step B pm acc r = Inl e"
  then show "ToString B (Section_ID r) \<in> set prototype_names" using step_raises by blast
qed

lemmas builtin_eval_defs =
  parseFloat_def decimal_builtins_def decimal_parseFloat_def digits_to_nat_def digit_val_def

lemma example_first_code:
  "getBaseCourseCode decimal_builtins (Course_ID example_first_row) = ''ACCT-6110''"
  by (simp add: example_first_row_def example_row_def getBaseCourseCode_def code_match_at_def
      code_digits_def char_class_defs)

lemma example_priceMap:
  "priceMap decimal_builtins example_prices = [(''ACCT-6110'', Fin 1500), (''FNCE-6110'', Fin 0)]"
  by (simp add: priceMap_def priceMap_step_def example_prices_def getBaseCourseCode_def
      code_match_at_def code_digits_def char_class_defs or_zero_def builtin_eval_defs)

lemma example_parse:
  "parseFloat decimal_builtins (Str ''3'') = Fin 3"
  "parseFloat decimal_builtins (Str ''n/a'') = NaN"
  by (simp_all add: builtin_eval_defs is_digit_def is_space_def)

text \<open>C6 on the sample rows: the first row creates its course with the rating 3 for the
  text \<open>3\<close>, null for the number 0 and for the absent field, NaN for the text \<open>n/a\<close>, and
  the price 1500; the price of a code without a price row is 0, and so is a price that does
  not parse.\<close>

theorem course_creation_witness:
  "(\<exists>acc' c. courseMap_step decimal_builtins (priceMap decimal_builtins example_prices) []
                example_first_row = Inr acc' \<and>
             map_of acc' ''ACCT-6110'' = Some c \<and>
             course_rating c = Some (Fin 3) \<and> instructor_rating c = None \<and>
             difficulty_rating c = None \<and> work_rating c = Some NaN \<and>
             Average_Price c = Fin 1500)
   \<and> price_of (priceMap decimal_builtins example_prices) ''MGMT-6110'' = Fin 0
   \<and> price_of (priceMap decimal_builtins example_prices) ''FNCE-6110'' = Fin 0"
proof (intro conjI)
  let ?B = decimal_builtins and ?pm = "priceMap decimal_builtins example_prices"
  have "list_all (\<lambda>r. ToString ?B (Section_ID r) \<notin> set prototype_names) [example_first_row]"
    by (simp add: example_first_row_def example_row_def prototype_names_def)
  from build_succeeds[OF this, of ?pm "[]"] obtain acc' where
    st: "courseMap_step ?B ?pm [] example_first_row = Inr acc'"
    by (auto split: sum.splits)
  from course_creation[where B = ?B and pm = ?pm and acc = "[]" and r = example_first_row
      and acc' = acc' and code = "''ACCT-6110''", THEN conjunct1] st example_first_code
  obtain c where "map_of acc' ''ACCT-6110'' = Some c"
    "course_rating c = (if truthy (base_course_quality example_first_row)
        then Some (parseFloat ?B (base_course_quality example_first_row)) else None)"
    "instructor_rating c = (if truthy (base_instructor_quality example_first_row)
        then Some (parseFloat ?B (base_instructor_quality example_first_row)) else None)"
    "difficulty_rating c = (if truthy (base_difficulty example_first_row)
        then Some (parseFloat ?B (base_difficulty example_first_row)) else None)"
    "work_rating c = (if truthy (base_work_required example_first_row)
        then Some (parseFloat ?B (base_work_required example_first_row)) else None)"
    "Average_Price c = (case map_of ?pm ''ACCT-6110'' of
                                None \<Rightarrow> Fin 0
                              | Some p \<Rightarrow> if falsy_num p then Fin 0 else p)"
    by auto
  then have "map_of acc' ''ACCT-6110'' = Some c \<and>
             course_rating c = Some (Fin 3) \<and> instructor_rating c = None \<and>
             difficulty_rating c = None \<and> work_rating c = Some NaN \<and>
             Average_Price c = Fin 1500"
    by (simp add: example_priceMap example_first_row_def example_row_def example_parse)
  with st show "\<exists>acc' c. courseMap_step ?B ?pm [] example_first_row = Inr acc' \<and>
             map_of acc' ''ACCT-6110'' = Some c \<and>
             course_rating c = Some (Fin 3) \<and> instructor_rating c = None \<and>
             difficulty_rating c = None \<and> work_rating c = Some NaN \<and>
             Average_Price c = Fin 1500"
    by blast
next
  show "price_of (priceMap decimal_builtins example_prices) ''MGMT-6110'' = Fin 0"
    by (simp add: example_priceMap price_of_def)
next
  show "price_of (priceMap decimal_builtins example_prices) ''FNCE-6110'' = Fin 0"
    by (simp add: example_priceMap price_of_def or_zero_def)
qed


text \<open>C7 on the sample rows: the row with the identifier \<open>--\<close> has the empty code, its
  step leaves the accumulated object as it is, and the build is the one without it.\<close>

theorem dropped_row_witness:
  "courseMap_step decimal_builtins [] example_acc
     (example_row ''--'' ''No code'' ''X1'' Undefined ''F'' ''Nobody'') = Inr example_acc
   \<and> courseMap decimal_builtins [] ([example_first_row] @
         example_row ''--'' ''No code'' ''X1'' Undefined ''F'' ''Nobody'' # [example_first_row])
     = courseMap decimal_builtins [] ([example_first_row] @ [example_first_row])"
proof -
  have "getBaseCourseCode decimal_builtins
          (Course_ID (example_row ''--'' ''No code'' ''X1'' Undefined ''F'' ''Nobody'')) = []"
    by (simp add: example_row_def getBaseCourseCode_def code_match_at_def code_digits_def
        char_class_defs)
  with dropped_row[where B = decimal_builtins
      and r = "example_row ''--'' ''No code'' ''X1'' Undefined ''F'' ''Nobody''"
      and pm = "[]" and acc = example_acc and ?rows1.0 = "[example_first_row]"
      and ?rows2.0 = "[example_first_row]"]
  show ?thesis by blast
qed

text \<open>
  Claim C10. From a state of the build in which a course exists, the rows that follow
  leave its code, title, four ratings and price as they are; and a section that exists in
  it keeps its id, days, time, term, credits and meetings, and gains one instructor entry,
  at the end, for each following row with the code of the course and the id of the
  section, and nothing else.
\<close>

theorem later_rows_frame:
  "courseMap_from B pm acc rows = Inr acc' \<and> map_of acc code = Some c \<and> code \<noteq> [] \<longrightarrow>
     (\<exists>c'. map_of acc' code = Some c' \<and>
        Course_Code c' = Course_Code c \<and> Title c' = Title c \<and>
        course_rating c' = course_rating c \<and> instructor_rating c' = instructor_rating c \<and>
        difficulty_rating c' = difficulty_rating c \<and> work_rating c' = work_rating c \<and>
        Average_Price c' = Average_Price c \<and>
        (\<forall>k s. map_of (sections c) k = Some s \<longrightarrow>
           (\<exists>s'. map_of (sections c') k = Some s' \<and>
              Session_ID s' = Session_ID s \<and> Days s' = Days s \<and> Time s' = Time s \<and>
              Term s' = Term s \<and> Credits s' = Credits s \<and> Meetings s' = Meetings s \<and>
              instructors s' = instructors s @
                map (new_instructor B)
                  (filter (\<lambda>r. getBaseCourseCode B (Course_ID r) = code \<and>
                                truthy (Section_ID r) \<and> ToString B (Section_ID r) = k)
                          rows))))"
proof
  assume a: "courseMap_from B pm acc rows = Inr acc' \<and> map_of acc code = Some c \<and> code \<noteq> []"
  then obtain secs' where c': "map_of acc' code = Some (c\<lparr>sections := secs'\<rparr>)" and
    f: "\<And>k s. map_of (sections c) k = Some s \<Longrightarrow>
              map_of secs' k =
                Some (s\<lparr>instructors := instructors s @
                        map (new_instructor B)
                          (filter (\<lambda>r. getBaseCourseCode B (Course_ID r) = code \<and>
                                        truthy (Section_ID r) \<and> ToString B (Section_ID r) = k)
                                  rows)\<rparr>)"
    using build_frame[of B pm acc rows acc' code c] by blast
  have "\<exists>s'. map_of (sections (c\<lparr>sections := secs'\<rparr>)) k = Some s' \<and>
              Session_ID s' = Session_ID s \<and> Days s' = Days s \<and> Time s' = Time s \<and>
              Term s' = Term s \<and> Credits s' = Credits s \<and> Meetings s' = Meetings s \<and>
              instructors s' = instructors s @
                map (new_instructor B)
                  (filter (\<lambda>r. getBaseCourseCode B (Course_ID r) = code \<and>
                                truthy (Section_ID r) \<and> ToString B (Section_ID r) = k)
                          rows)"
    if "map_of (sections c) k = Some s" for k s
    using f[OF that] by simp
  with c' show "\<exists>c'. map_of acc' code = Some c' \<and>
        Course_Code c' = Course_Code c \<and> Title c' = Title c \<and>
        course_rating c' = course_rating c \<and> instructor_rating c' = instructor_rating c \<and>
        difficulty_rating c' = difficulty_rating c \<and> work_rating c' = work_rating c \<and>
        Average_Price c' = Average_Price c \<and>
        (\<forall>k s. map_of (sections c) k = Some s \<longrightarrow>
           (\<exists>s'. map_of (sections c') k = Some s' \<and>
              Session_ID s' = Session_ID s \<and> Days s' = Days s \<and> Time s' = Time s \<and>
              Term s' = Term s \<and> Credits s' = Credits s \<and> Meetings s' = Meetings s \<and>
              instructors s' = instructors s @
                map (new_instructor B)
                  (filter (\<lambda>r. getBaseCourseCode B (Course_ID r) = code \<and>
                                truthy (Section_ID r) \<and> ToString B (Section_ID r) = k)
                          rows)))"
    by (intro exI[of _ "c\<lparr>sections := secs'\<rparr>"]) simp
qed

lemma example_later_instructors:
  "map name (map (new_instructor decimal_builtins)
     (filter (\<lambda>r. getBaseCourseCode decimal_builtins (Course_ID r) = ''ACCT-6110'' \<and>
                   truthy (Section_ID r) \<and>
                   ToString decimal_builtins (Section_ID r) = ''ACCT6110001'')
             example_later_rows))
   = [Str ''Doe'']"
  by (simp add: example_later_rows_def example_row_def getBaseCourseCode_def code_match_at_def
      code_digits_def char_class_defs new_instructor_def getLastName_def trim_def)

text \<open>C10 on the sample rows: after the later rows the course created by the first row
  has its title and its rating, and its first section has its days and a second
  instructor.\<close>

theorem later_rows_frame_witness:
  "\<exists>acc' c' s'.
      courseMap_from decimal_builtins [] example_acc example_later_rows = Inr acc' \<and>
      map_of acc' ''ACCT-6110'' = Some c' \<and>
      Title c' = Str ''Accounting'' \<and> course_rating c' = Some (Fin 3) \<and>
      Average_Price c' = Fin 1500 \<and>
      map_of (sections c') ''ACCT6110001'' = Some s' \<and>
      Days s' = Some ''MW'' \<and> Meetings s' = ''MW 9:00am-10:30am'' \<and>
      map name (instructors s') = [Str ''Smith'', Str ''Doe'']"
proof -
  let ?B = decimal_builtins
  have "list_all (\<lambda>r. ToString ?B (Section_ID r) \<notin> set prototype_names) example_later_rows"
    by (simp add: example_later_rows_def example_row_def prototype_names_def)
  from build_succeeds[OF this, of "[]" example_acc] obtain acc' where
    b: "courseMap_from ?B [] example_acc example_later_rows = Inr acc'" by blast
  obtain c where c: "map_of example_acc ''ACCT-6110'' = Some c"
    and cf: "Title c = Str ''Accounting''" "course_rating c = Some (Fin 3)"
      "Average_Price c = Fin 1500"
    by (simp add: example_acc_def)
  obtain s where s: "map_of (sections c) ''ACCT6110001'' = Some s"
    and sf: "Days s = Some ''MW''" "Meetings s = ''MW 9:00am-10:30am''"
      "map name (instructors s) = [Str ''Smith'']"
    using c by (auto simp: example_acc_def)
  from later_rows_frame[where B = ?B and pm = "[]" and acc = example_acc
      and rows = example_later_rows and acc' = acc' and code = "''ACCT-6110''" and c = c] b c
  obtain c' where c': "map_of acc' ''ACCT-6110'' = Some c'"
    "Title c' = Title c" "course_rating c' = course_rating c" "Average_Price c' = Average_Price c"
    and fr: "\<And>k s. map_of (sections c) k = Some s \<Longrightarrow>
           (\<exists>s'. map_of (sections c') k = Some s' \<and>
              Session_ID s' = Session_ID s \<and> Days s' = Days s \<and> Time s' = Time s \<and>
              Term s' = Term s \<and> Credits s' = Credits s \<and> Meetings s' = Meetings s \<and>
              instructors s' = instructors s @
                map (new_instructor ?B)
                  (filter (\<lambda>r. getBaseCourseCode ?B (Course_ID r) = ''ACCT-6110'' \<and>
                                truthy (Section_ID r) \<and> ToString ?B (Section_ID r) = k)
                          example_later_rows))"
    by auto
  from fr[OF s] obtain s' where s': "map_of (sections c') ''ACCT6110001'' = Some s'"
    "Days s' = Days s" "Meetings s' = Meetings s"
    "instructors s' = instructors s @
                map (new_instructor ?B)
                  (filter (\<lambda>r. getBaseCourseCode ?B (Course_ID r) = ''ACCT-6110'' \<and>
                                truthy (Section_ID r) \<and>
                                ToString ?B (Section_ID r) = ''ACCT6110001'')
                          example_later_rows)"
    by blast
  from s'(4) have "map name (instructors s') = [Str ''Smith'', Str ''Doe'']"
    using sf(3) example_later_instructors by simp
  with b c' cf s' sf show ?thesis by auto
qed

section \<open>Properties of the calendar projector\<close>

lemma calendarEvents_per_section:
  "calendarEvents view selected = concat (map (events_of view) selected)"
  by (induction selected) (simp_all add: calendarEvents_def events_of_def)

lemma weekdays_nonempty:
  "concat (map (\<lambda>day. case map_of dayMap day of Some n \<Rightarrow> [n] | None \<Rightarrow> []) ds) \<noteq> []
   \<longleftrightarrow> set ds \<inter> set ''MTWRF'' \<noteq> {}"
  by (induction ds) (auto simp: dayMap_def)

lemma section_event_iff:
  "section_event s \<noteq> [] \<longleftrightarrow>
     (case split_on CHR ''-'' (text_of (Time s)) of
        st # en # rest \<Rightarrow> st \<noteq> [] \<and> en \<noteq> []
      | _ \<Rightarrow> False) \<and>
     set (text_of (Days s)) \<inter> set ''MTWRF'' \<noteq> {}"
  using weekdays_nonempty[of "text_of (Days s)"]
  by (auto simp: section_event_def Let_def split: list.splits)

lemma section_event_length: "length (section_event s) \<le> 1"
  by (simp add: section_event_def Let_def split: list.splits)

text \<open>
  Claim C5, amended. The events of the calendar are those of the sections of the list, in
  order, each section giving at most one event. A section gives its event exactly when its
  time and days are not absent, it is not flagged, its term is in the terms of the scope,
  and moreover its time splits at hyphens into a non-empty start and a non-empty end and
  its days contain a letter of Monday to Friday. The terms are Full, Q1, Q2 for Overall,
  Full and Q1 for Q1, Full and Q2 for Q2; so a section of term Full gives the same events
  under the three scopes, and a section of term Q1 gives its events under Overall and Q1
  and none under Q2.
\<close>

theorem calendar_eligibility:
  "calendarEvents view selected = concat (map (events_of view) selected)
   \<and> length (events_of view s) \<le> 1
   \<and> (events_of view s \<noteq> [] \<longleftrightarrow>
        \<not> absent (Time s) \<and> \<not> absent (Days s) \<and> \<not> isConflicting s \<and>
        includes_term (termsToShow view) (Term s) \<and>
        (case split_on CHR ''-'' (text_of (Time s)) of
           st # en # rest \<Rightarrow> st \<noteq> [] \<and> en \<noteq> []
         | _ \<Rightarrow> False) \<and>
        set (text_of (Days s)) \<inter> set ''MTWRF'' \<noteq> {})
   \<and> termsToShow ''Overall'' = [''Full'', ''Q1'', ''Q2'']
   \<and> termsToShow ''Q1'' = [''Full'', ''Q1'']
   \<and> termsToShow ''Q2'' = [''Full'', ''Q2'']
   \<and> (Term s = Str ''Full'' \<longrightarrow>
        events_of ''Q1'' s = events_of ''Overall'' s \<and> events_of ''Q2'' s = events_of ''Overall'' s)
   \<and> (Term s = Str ''Q1'' \<longrightarrow>
        events_of ''Q1'' s = events_of ''Overall'' s \<and> events_of ''Q2'' s = [])"
proof (intro conjI)
  show "calendarEvents view selected = concat (map (events_of view) selected)"
    by (rule calendarEvents_per_section)
  show "length (events_of view s) \<le> 1"
    using section_event_length[of s] by (simp add: events_of_def)
  show "events_of view s \<noteq> [] \<longleftrightarrow>
        \<not> absent (Time s) \<and> \<not> absent (Days s) \<and> \<not> isConflicting s \<and>
        includes_term (termsToShow view) (Term s) \<and>
        (case split_on CHR ''-'' (text_of (Time s)) of
           st # en # rest \<Rightarrow> st \<noteq> [] \<and> en \<noteq> []
         | _ \<Rightarrow> False) \<and>
        set (text_of (Days s)) \<inter> set ''MTWRF'' \<noteq> {}"
    using section_event_iff[of s] by (simp add: events_of_def shown_def)
  show "termsToShow ''Overall'' = [''Full'', ''Q1'', ''Q2'']"
    "termsToShow ''Q1'' = [''Full'', ''Q1'']" "termsToShow ''Q2'' = [''Full'', ''Q2'']"
    by (simp_all add: termsToShow_def)
  show "Term s = Str ''Full'' \<longrightarrow>
        events_of ''Q1'' s = events_of ''Overall'' s \<and> events_of ''Q2'' s = events_of ''Overall'' s"
    by (simp add: events_of_def shown_def termsToShow_def)
  show "Term s = Str ''Q1'' \<longrightarrow>
        events_of ''Q1'' s = events_of ''Overall'' s \<and> events_of ''Q2'' s = []"
    by (simp add: events_of_def shown_def termsToShow_def)
qed

lemmas example_checked_defs =
  example_checked_def init_checked_def entry_def example_course_def example_section_of_def

text \<open>C5 on sample sections: a section of term Full on Monday and Wednesday gives an event
  under Q2, and a section of term Q1 gives one under Overall and none under Q2.\<close>

theorem calendar_eligibility_witness:
  "events_of ''Q2'' (example_checked ''Full'' ''MW'' (Some ''9:00am-10:30am'')) \<noteq> []
   \<and> events_of ''Overall'' (example_checked ''Q1'' ''TR'' (Some ''1:00pm-2:00pm'')) \<noteq> []
   \<and> events_of ''Q2'' (example_checked ''Q1'' ''TR'' (Some ''1:00pm-2:00pm'')) = []"
proof (intro conjI)
  let ?full = "example_checked ''Full'' ''MW'' (Some ''9:00am-10:30am'')"
  let ?q1 = "example_checked ''Q1'' ''TR'' (Some ''1:00pm-2:00pm'')"
  have "\<not> absent (Time ?full) \<and> \<not> absent (Days ?full) \<and> \<not> isConflicting ?full \<and>
        includes_term (termsToShow ''Q2'') (Term ?full) \<and>
        (case split_on CHR ''-'' (text_of (Time ?full)) of
           st # en # rest \<Rightarrow> st \<noteq> [] \<and> en \<noteq> []
         | _ \<Rightarrow> False) \<and>
        set (text_of (Days ?full)) \<inter> set ''MTWRF'' \<noteq> {}"
    by (simp add: example_checked_defs termsToShow_def)
  with calendar_eligibility[where view = "''Q2''" and selected = "[]" and s = ?full]
  show "events_of ''Q2'' ?full \<noteq> []" by blast
  have "\<not> absent (Time ?q1) \<and> \<not> absent (Days ?q1) \<and> \<not> isConflicting ?q1 \<and>
        includes_term (termsToShow ''Overall'') (Term ?q1) \<and>
        (case split_on CHR ''-'' (text_of (Time ?q1)) of
           st # en # rest \<Rightarrow> st \<noteq> [] \<and> en \<noteq> []
         | _ \<Rightarrow> False) \<and>
        set (text_of (Days ?q1)) \<inter> set ''MTWRF'' \<noteq> {}"
    by (simp add: example_checked_defs termsToShow_def)
  with calendar_eligibility[where view = "''Overall''" and selected = "[]" and s = ?q1]
  show "events_of ''Overall'' ?q1 \<noteq> []" by blast
  have "Term ?q1 = Str ''Q1''" by (simp add: example_checked_defs)
  with calendar_eligibility[where view = "''Q2''" and selected = "[]" and s = ?q1]
  show "events_of ''Q2'' ?q1 = []" by blast
qed

text \<open>Claim C5 as stated: a section on Saturday with a time, not flagged and of term Full
  meets the three conditions under Overall and gives no event; so does a section whose
  time has no hyphen.\<close>

theorem weekend_section_counterexample:
  "\<not> absent (Time (example_checked ''Full'' ''S'' (Some ''9:00am-10:00am'')))
   \<and> \<not> absent (Days (example_checked ''Full'' ''S'' (Some ''9:00am-10:00am'')))
   \<and> \<not> isConflicting (example_checked ''Full'' ''S'' (Some ''9:00am-10:00am''))
   \<and> includes_term (termsToShow ''Overall'')
        (Term (example_checked ''Full'' ''S'' (Some ''9:00am-10:00am'')))
   \<and> calendarEvents ''Overall'' [example_checked ''Full'' ''S'' (Some ''9:00am-10:00am'')] = []
   \<and> \<not> absent (Time (example_checked ''Full'' ''M'' (Some ''9:00am'')))
   \<and> \<not> absent (Days (example_checked ''Full'' ''M'' (Some ''9:00am'')))
   \<and> \<not> isConflicting (example_checked ''Full'' ''M'' (Some ''9:00am''))
   \<and> includes_term (termsToShow ''Overall'')
        (Term (example_checked ''Full'' ''M'' (Some ''9:00am'')))
   \<and> calendarEvents ''Overall'' [example_checked ''Full'' ''M'' (Some ''9:00am'')] = []"
  by (simp add: example_checked_defs termsToShow_def calendarEvents_def shown_def
      section_event_def dayMap_def)

section \<open>Properties of the sorted view\<close>

text \<open>What a consistent comparison function satisfies besides its five conditions.\<close>

lemma consistent_less_greater:
  assumes "consistent_on cmp S" "a \<in> S" "b \<in> S" "cmp a b < 0"
  shows "cmp b a > 0"
proof -
  have "\<not> cmp b a < 0"
  proof
    assume "cmp b a < 0"
    with assms have "cmp a a < 0" unfolding consistent_on_def by blast
    moreover from assms have "cmp a a = 0" unfolding consistent_on_def by blast
    ultimately show False by simp
  qed
  moreover have "cmp b a \<noteq> 0"
  proof
    assume "cmp b a = 0"
    with assms have "cmp a b = 0" unfolding consistent_on_def by blast
    with assms(4) show False by simp
  qed
  ultimately show ?thesis by linarith
qed

lemma consistent_greater_less:
  assumes "consistent_on cmp S" "a \<in> S" "b \<in> S" "cmp a b > 0"
  shows "cmp b a < 0"
proof -
  have "\<not> cmp b a > 0"
  proof
    assume "cmp b a > 0"
    with assms have "cmp a a > 0" unfolding consistent_on_def by blast
    moreover from assms have "cmp a a = 0" unfolding consistent_on_def by blast
    ultimately show False by simp
  qed
  moreover have "cmp b a \<noteq> 0"
  proof
    assume "cmp b a = 0"
    with assms have "cmp a b = 0" unfolding consistent_on_def by blast
    with assms(4) show False by simp
  qed
  ultimately show ?thesis by linarith
qed

lemma consistent_equal_less:
  assumes c: "consistent_on cmp S" and m: "a \<in> S" "b \<in> S" "x \<in> S"
    and e: "cmp a b = 0" and l: "cmp b x < 0"
  shows "cmp a x < 0"
proof -
  have "cmp a x \<noteq> 0"
  proof
    assume "cmp a x = 0"
    with c m have "cmp x a = 0" unfolding consistent_on_def by blast
    with c m e have "cmp x b = 0" unfolding consistent_on_def by blast
    with c m have "cmp b x = 0" unfolding consistent_on_def by blast
    with l show False by simp
  qed
  moreover have "\<not> cmp a x > 0"
  proof
    assume "cmp a x > 0"
    with c m have "cmp x a < 0" by (intro consistent_greater_less[of cmp S a x]) auto
    with c m l have "cmp b a < 0" unfolding consistent_on_def by blast
    moreover from c m e have "cmp b a = 0" unfolding consistent_on_def by blast
    ultimately show False by simp
  qed
  ultimately show ?thesis by linarith
qed

lemma consistent_less_equal:
  assumes c: "consistent_on cmp S" and m: "a \<in> S" "b \<in> S" "x \<in> S"
    and l: "cmp a b < 0" and e: "cmp b x = 0"
  shows "cmp a x < 0"
proof -
  have "cmp a x \<noteq> 0"
  proof
    assume "cmp a x = 0"
    moreover from c m e have "cmp x b = 0" unfolding consistent_on_def by blast
    ultimately have "cmp a b = 0" using c m unfolding consistent_on_def by blast
    with l show False by simp
  qed
  moreover have "\<not> cmp a x > 0"
  proof
    assume "cmp a x > 0"
    with c m have "cmp x a < 0" by (intro consistent_greater_less[of cmp S a x]) auto
    with c m l have "cmp x b < 0" unfolding consistent_on_def by blast
    moreover from c m e have "cmp x b = 0" unfolding consistent_on_def by blast
    ultimately show False by simp
  qed
  ultimately show ?thesis by linarith
qed

lemma consistent_le_trans:
  assumes c: "consistent_on cmp S" and m: "a \<in> S" "b \<in> S" "x \<in> S"
    and ab: "cmp a b \<le> 0" and bx: "cmp b x \<le> 0"
  shows "cmp a x \<le> 0"
proof -
  consider "cmp a b < 0" "cmp b x < 0" | "cmp a b < 0" "cmp b x = 0"
    | "cmp a b = 0" "cmp b x < 0" | "cmp a b = 0" "cmp b x = 0"
    using ab bx by linarith
  then show ?thesis
  proof cases
    case 1
    with c m have "cmp a x < 0" unfolding consistent_on_def by blast
    then show ?thesis by simp
  next
    case 2
    with consistent_less_equal[OF c m] show ?thesis by simp
  next
    case 3
    with consistent_equal_less[OF c m] show ?thesis by simp
  next
    case 4
    with c m have "cmp a x = 0" unfolding consistent_on_def by blast
    then show ?thesis by simp
  qed
qed

lemma consistent_le_total:
  assumes "consistent_on cmp S" "a \<in> S" "b \<in> S" "\<not> cmp a b \<le> 0"
  shows "cmp b a \<le> 0"
  using consistent_greater_less[OF assms(1-3)] assms(4) by simp

lemma consistent_on_subset: "consistent_on cmp S \<Longrightarrow> T \<subseteq> S \<Longrightarrow> consistent_on cmp T"
  unfolding consistent_on_def by blast

text \<open>The sort of the V8 engine meets the contract.\<close>

lemma consistent_ge_iff:
  assumes "consistent_on cmp S" "a \<in> S" "b \<in> S"
  shows "cmp a b \<ge> 0 \<longleftrightarrow> cmp b a \<le> 0"
proof
  assume "cmp a b \<ge> 0"
  then consider "cmp a b > 0" | "cmp a b = 0" by linarith
  then show "cmp b a \<le> 0"
  proof cases
    case 1
    with consistent_greater_less[OF assms] show ?thesis by simp
  next
    case 2
    with assms have "cmp b a = 0" unfolding consistent_on_def by blast
    then show ?thesis by simp
  qed
next
  assume l: "cmp b a \<le> 0"
  show "cmp a b \<ge> 0"
  proof (rule ccontr)
    assume "\<not> cmp a b \<ge> 0"
    then have "cmp a b < 0" by simp
    with consistent_less_greater[OF assms] l show False by simp
  qed
qed

lemma consistent_less_le_trans:
  assumes c: "consistent_on cmp S" and m: "a \<in> S" "b \<in> S" "x \<in> S"
    and l: "cmp a b < 0" and e: "cmp b x \<le> 0"
  shows "cmp a x < 0"
proof (cases "cmp b x = 0")
  case True
  with consistent_less_equal[OF c m l] show ?thesis by simp
next
  case False
  with e have "cmp b x < 0" by simp
  with c m l show ?thesis unfolding consistent_on_def by blast
qed

lemma binary_search_spec:
  "consistent_on cmp S \<Longrightarrow> pivot \<in> S \<Longrightarrow> \<forall>i<start. a ! i \<in> S \<Longrightarrow>
   \<forall>i j. i < j \<and> j < start \<longrightarrow> cmp (a ! i) (a ! j) \<le> 0 \<Longrightarrow>
   left \<le> right \<Longrightarrow> right \<le> start \<Longrightarrow>
   \<forall>i<left. cmp pivot (a ! i) \<ge> 0 \<Longrightarrow>
   \<forall>i. right \<le> i \<and> i < start \<longrightarrow> cmp pivot (a ! i) < 0 \<Longrightarrow>
   (\<forall>i<binary_search cmp pivot a left right. cmp pivot (a ! i) \<ge> 0) \<and>
   (\<forall>i. binary_search cmp pivot a left right \<le> i \<and> i < start \<longrightarrow> cmp pivot (a ! i) < 0)"
proof (induction cmp pivot a left right rule: binary_search.induct)
  case (1 cmp pivot a left right)
  note c = "1.prems"(1) and piv = "1.prems"(2) and sub = "1.prems"(3) and srt = "1.prems"(4)
  show ?case
  proof (cases "left < right")
    case False
    with "1.prems" have "left = right" by simp
    moreover from False have "binary_search cmp pivot a left right = left"
      by (subst binary_search.simps) simp
    ultimately show ?thesis using "1.prems" by simp
  next
    case True
    define mid where "mid = left + (right - left) div 2"
    have m: "left \<le> mid" "mid < right" using True by (auto simp: mid_def)
    with "1.prems" have ms: "mid < start" by simp
    show ?thesis
    proof (cases "cmp pivot (a ! mid) < 0")
      case l: True
      have e: "binary_search cmp pivot a left right = binary_search cmp pivot a left mid"
        using True l by (subst binary_search.simps) (simp add: mid_def Let_def)
      have "\<forall>i. mid \<le> i \<and> i < start \<longrightarrow> cmp pivot (a ! i) < 0"
      proof (intro allI impI)
        fix i assume i: "mid \<le> i \<and> i < start"
        show "cmp pivot (a ! i) < 0"
        proof (cases "i = mid")
          case True
          with l show ?thesis by simp
        next
          case False
          with i srt have "cmp (a ! mid) (a ! i) \<le> 0" by simp
          with consistent_less_le_trans[OF c piv, of "a ! mid" "a ! i"] sub ms i l
          show ?thesis by simp
        qed
      qed
      with "1.IH"(1)[OF True mid_def l c piv sub srt m(1) _ "1.prems"(7)] ms
      show ?thesis unfolding e by simp
    next
      case g: False
      have e: "binary_search cmp pivot a left right = binary_search cmp pivot a (mid + 1) right"
        using True g by (subst binary_search.simps) (simp add: mid_def Let_def)
      from g have "cmp pivot (a ! mid) \<ge> 0" by simp
      with consistent_ge_iff[OF c piv, of "a ! mid"] sub ms
      have mp: "cmp (a ! mid) pivot \<le> 0" by simp
      have "\<forall>i<mid + 1. cmp pivot (a ! i) \<ge> 0"
      proof (intro allI impI)
        fix i assume i: "i < mid + 1"
        show "cmp pivot (a ! i) \<ge> 0"
        proof (cases "i = mid")
          case True
          with g show ?thesis by simp
        next
          case False
          with i have im: "i < mid" by simp
          with srt ms have "cmp (a ! i) (a ! mid) \<le> 0" by simp
          moreover from im ms sub have "a ! i \<in> S" "a ! mid \<in> S" by simp_all
          ultimately have "cmp (a ! i) pivot \<le> 0"
            using consistent_le_trans[OF c _ _ piv, of "a ! i" "a ! mid"] mp by simp
          with consistent_ge_iff[OF c piv \<open>a ! i \<in> S\<close>] show ?thesis by simp
        qed
      qed
      with "1.IH"(2)[OF True mid_def g c piv sub srt _ "1.prems"(6) _ "1.prems"(8)] m
      show ?thesis unfolding e by simp
    qed
  qed
qed


lemma insertion_step:
  fixes cmp :: "'a \<Rightarrow> 'a \<Rightarrow> int"
  assumes c: "consistent_on cmp S" and sub: "set a \<subseteq> S" and st: "start < length a"
    and srt: "sorted_wrt (\<lambda>x y. cmp x y \<le> 0) (take start a)"
    and left: "left = binary_search cmp (a ! start) a 0 start"
    and a': "a' = take left a @ a ! start # drop left (take start a) @ drop (start + 1) a"
  shows "count_list a' z = count_list a z"
    and "set a' = set a"
    and "sorted_wrt (\<lambda>x y. cmp x y \<le> 0) (take (start + 1) a')"
    and "x \<in> S \<Longrightarrow> y \<in> S \<Longrightarrow> cmp x y = 0 \<Longrightarrow>
         filter (\<lambda>z. z = x \<or> z = y) a' = filter (\<lambda>z. z = x \<or> z = y) a"
proof -
  define pivot where "pivot = a ! start"
  define p1 where "p1 = take left a"
  define p2 where "p2 = drop left (take start a)"
  define r where "r = drop (Suc start) a"
  from binary_search_bounds[of 0 start cmp pivot a] left have lb: "left \<le> start"
    by (simp add: pivot_def)
  have "take left (take start a) = take left a" using lb by (simp add: min_def)
  then have p: "take start a = p1 @ p2"
    unfolding p1_def p2_def using append_take_drop_id[of left "take start a"] by simp
  have a: "a = p1 @ p2 @ pivot # r"
    using id_take_nth_drop[OF st] p unfolding pivot_def r_def by simp
  have a2: "a' = p1 @ pivot # p2 @ r"
    unfolding a' p1_def p2_def pivot_def r_def by simp
  have l1: "length p1 = left" using lb st by (simp add: p1_def)
  have l2: "length p2 = start - left" using lb st by (simp add: p2_def)
  have piv: "pivot \<in> S" using sub st unfolding pivot_def by auto
  have subi: "\<forall>i<start. a ! i \<in> S" using sub st by auto
  have srti: "\<forall>i j. i < j \<and> j < start \<longrightarrow> cmp (a ! i) (a ! j) \<le> 0"
  proof (intro allI impI)
    fix i j assume ij: "i < j \<and> j < start"
    with srt st have "cmp (take start a ! i) (take start a ! j) \<le> 0"
      by (simp add: sorted_wrt_iff_nth_less)
    with ij show "cmp (a ! i) (a ! j) \<le> 0" by simp
  qed
  from binary_search_spec[OF c piv subi srti, of 0 start] left
  have spec: "\<forall>i<left. cmp pivot (a ! i) \<ge> 0"
    "\<forall>i. left \<le> i \<and> i < start \<longrightarrow> cmp pivot (a ! i) < 0"
    by (simp_all add: pivot_def)
  have e1: "cmp pivot u \<ge> 0" if "u \<in> set p1" for u
  proof -
    from that obtain i where "i < length p1" "p1 ! i = u" by (auto simp: in_set_conv_nth)
    with l1 spec(1) show ?thesis by (auto simp: p1_def)
  qed
  have e2: "cmp pivot u < 0" if "u \<in> set p2" for u
  proof -
    from that obtain k where k: "k < length p2" "p2 ! k = u" by (auto simp: in_set_conv_nth)
    with l2 have "left + k < start" by simp
    with spec(2) have "cmp pivot (a ! (left + k)) < 0" by simp
    moreover from k l2 lb st have "p2 ! k = a ! (left + k)" by (simp add: p2_def)
    ultimately show ?thesis using k by simp
  qed
  show "count_list a' z = count_list a z" unfolding a2 by (subst a) simp
  show "set a' = set a" unfolding a2 by (subst a) auto
  have s12: "sorted_wrt (\<lambda>x y. cmp x y \<le> 0) (p1 @ p2)" using srt p by simp
  have ps: "set p1 \<subseteq> S" "set p2 \<subseteq> S" using sub a by auto
  have "sorted_wrt (\<lambda>x y. cmp x y \<le> 0) (p1 @ pivot # p2)"
    unfolding sorted_wrt_append
  proof (intro conjI ballI)
    from s12 show "sorted_wrt (\<lambda>x y. cmp x y \<le> 0) p1" by (simp add: sorted_wrt_append)
    from s12 e2 show "sorted_wrt (\<lambda>x y. cmp x y \<le> 0) (pivot # p2)"
      by (auto simp: sorted_wrt_append intro: less_imp_le)
    fix u v assume u: "u \<in> set p1" and v: "v \<in> set (pivot # p2)"
    from u ps have uS: "u \<in> S" by auto
    from v consider "v = pivot" | "v \<in> set p2" by auto
    then show "cmp u v \<le> 0"
    proof cases
      case 1
      with e1[OF u] consistent_ge_iff[OF c piv uS] show ?thesis by simp
    next
      case 2
      with s12 u show ?thesis by (simp add: sorted_wrt_append)
    qed
  qed
  moreover have "take (start + 1) a' = p1 @ pivot # p2"
  proof -
    have "a' = (p1 @ pivot # p2) @ r" using a2 by simp
    moreover have "length (p1 @ pivot # p2) = start + 1" using l1 l2 lb by simp
    ultimately show ?thesis by (metis append_eq_conv_conj)
  qed
  ultimately show "sorted_wrt (\<lambda>x y. cmp x y \<le> 0) (take (start + 1) a')" by simp
  show "filter (\<lambda>z. z = x \<or> z = y) a' = filter (\<lambda>z. z = x \<or> z = y) a"
    if xy: "x \<in> S" "y \<in> S" "cmp x y = 0"
  proof (cases "pivot = x \<or> pivot = y")
    case False
    then show ?thesis unfolding a2 by (subst a) simp
  next
    case True
    from c xy have z: "cmp x x = 0" "cmp y y = 0" "cmp y x = 0"
      unfolding consistent_on_def by blast+
    have "filter (\<lambda>z. z = x \<or> z = y) p2 = []"
    proof (rule filter_False, intro ballI)
      fix u assume "u \<in> set p2"
      from e2[OF this] True z xy(3) show "\<not> (u = x \<or> u = y)" by auto
    qed
    then show ?thesis unfolding a2 by (subst a) simp
  qed
qed

lemma BinaryInsertionSort_contract:
  fixes cmp :: "'a \<Rightarrow> 'a \<Rightarrow> int"
  shows "consistent_on cmp S \<Longrightarrow> set a \<subseteq> S \<Longrightarrow>
     sorted_wrt (\<lambda>x y. cmp x y \<le> 0) (take start a) \<Longrightarrow>
     (\<forall>z. count_list (BinaryInsertionSort cmp start a) z = count_list a z) \<and>
     sorted_wrt (\<lambda>x y. cmp x y \<le> 0) (BinaryInsertionSort cmp start a) \<and>
     (\<forall>x\<in>S. \<forall>y\<in>S. cmp x y = 0 \<longrightarrow>
        filter (\<lambda>z. z = x \<or> z = y) (BinaryInsertionSort cmp start a)
        = filter (\<lambda>z. z = x \<or> z = y) a)"
proof (induction cmp start a rule: BinaryInsertionSort.induct)
  case (1 cmp start a)
  show ?case
  proof (cases "start < length a")
    case False
    then have "BinaryInsertionSort cmp start a = a"
      by (subst BinaryInsertionSort.simps) simp
    with False "1.prems"(3) show ?thesis by simp
  next
    case True
    define a' where
      "a' = take (binary_search cmp (a ! start) a 0 start) a @ a ! start #
            drop (binary_search cmp (a ! start) a 0 start) (take start a) @ drop (start + 1) a"
    have e: "BinaryInsertionSort cmp start a = BinaryInsertionSort cmp (start + 1) a'"
      using True by (subst BinaryInsertionSort.simps) (simp add: a'_def Let_def)
    note step = insertion_step[OF "1.prems"(1,2) True "1.prems"(3) refl a'_def]
    from step(2) "1.prems"(2) have sub: "set a' \<subseteq> S" by simp
    note ih = "1.IH"[OF True refl refl, folded a'_def, OF "1.prems"(1) sub step(3)]
    show ?thesis
      unfolding e
    proof (intro conjI allI ballI impI)
      fix z
      from ih step(1)[of z] show "count_list (BinaryInsertionSort cmp (start + 1) a') z = count_list a z"
        by simp
    next
      from ih show "sorted_wrt (\<lambda>x y. cmp x y \<le> 0) (BinaryInsertionSort cmp (start + 1) a')"
        by blast
    next
      fix x y assume xy: "x \<in> S" "y \<in> S" "cmp x y = 0"
      with ih have "filter (\<lambda>z. z = x \<or> z = y) (BinaryInsertionSort cmp (start + 1) a')
                    = filter (\<lambda>z. z = x \<or> z = y) a'"
        by blast
      with step(4)[OF xy] show "filter (\<lambda>z. z = x \<or> z = y) (BinaryInsertionSort cmp (start + 1) a')
                    = filter (\<lambda>z. z = x \<or> z = y) a"
        by simp
    qed
  qed
qed


lemma count_run_le: "count_run cmp d prev xs \<le> length xs"
  by (induction xs arbitrary: prev) (simp_all add: Let_def)

lemma ascending_run_sorted:
  "consistent_on cmp S \<Longrightarrow> prev \<in> S \<Longrightarrow> set xs \<subseteq> S \<Longrightarrow>
   sorted_wrt (\<lambda>x y. cmp x y \<le> 0) (prev # take (count_run cmp False prev xs) xs)"
proof (induction xs arbitrary: prev)
  case Nil
  then show ?case by simp
next
  case (Cons cur rest)
  show ?case
  proof (cases "cmp cur prev < 0")
    case True
    then show ?thesis by simp
  next
    case False
    from Cons.prems have m: "cur \<in> S" "set rest \<subseteq> S" by auto
    from Cons.IH[OF Cons.prems(1) m]
    have ih: "sorted_wrt (\<lambda>x y. cmp x y \<le> 0) (cur # take (count_run cmp False cur rest) rest)" .
    from False consistent_ge_iff[OF Cons.prems(1) m(1) Cons.prems(2)]
    have pc: "cmp prev cur \<le> 0" by simp
    have "cmp prev z \<le> 0" if "z \<in> set (take (count_run cmp False cur rest) rest)" for z
    proof -
      from that m have "z \<in> S" using set_take_subset[of _ rest] by blast
      moreover from that ih have "cmp cur z \<le> 0" by simp
      ultimately show ?thesis
        using consistent_le_trans[OF Cons.prems(1,2) m(1), of z] pc by simp
    qed
    with False pc ih show ?thesis by (simp add: Let_def)
  qed
qed

lemma descending_run_sorted:
  "consistent_on cmp S \<Longrightarrow> prev \<in> S \<Longrightarrow> set xs \<subseteq> S \<Longrightarrow>
   sorted_wrt (\<lambda>x y. cmp y x < 0) (prev # take (count_run cmp True prev xs) xs)"
proof (induction xs arbitrary: prev)
  case Nil
  then show ?case by simp
next
  case (Cons cur rest)
  show ?case
  proof (cases "cmp cur prev \<ge> 0")
    case True
    then show ?thesis by simp
  next
    case False
    then have cp: "cmp cur prev < 0" by simp
    from Cons.prems have m: "cur \<in> S" "set rest \<subseteq> S" by auto
    from Cons.IH[OF Cons.prems(1) m]
    have ih: "sorted_wrt (\<lambda>x y. cmp y x < 0) (cur # take (count_run cmp True cur rest) rest)" .
    have "cmp z prev < 0" if "z \<in> set (take (count_run cmp True cur rest) rest)" for z
    proof -
      from that m have "z \<in> S" using set_take_subset[of _ rest] by blast
      moreover from that ih have "cmp z cur < 0" by simp
      ultimately show ?thesis
        using cp Cons.prems(1,2) m(1) unfolding consistent_on_def by blast
    qed
    with False cp ih show ?thesis by (simp add: Let_def)
  qed
qed

lemma filter_rev_descending:
  assumes "sorted_wrt (\<lambda>x y. cmp y x < (0::int)) run" "\<And>u v. P u \<Longrightarrow> P v \<Longrightarrow> cmp u v = 0"
  shows "filter P (rev run) = filter P run"
  using assms(1)
proof (induction run)
  case Nil
  then show ?case by simp
next
  case (Cons u us)
  then have ih: "filter P (rev us) = filter P us" by simp
  show ?case
  proof (cases "P u")
    case False
    with ih show ?thesis by simp
  next
    case True
    have "filter P us = []"
    proof (rule filter_False, intro ballI)
      fix v assume "v \<in> set us"
      with Cons.prems have "cmp v u < 0" by simp
      with assms(2)[of v u] True show "\<not> P v" by auto
    qed
    with ih True show ?thesis by simp
  qed
qed

lemma CountAndMakeRun_contract:
  fixes cmp :: "'a \<Rightarrow> 'a \<Rightarrow> int"
  assumes c: "consistent_on cmp S" and sub: "set a \<subseteq> S"
    and r: "CountAndMakeRun cmp a = (runLength, a1)"
  shows "count_list a1 z = count_list a z"
    and "set a1 = set a"
    and "sorted_wrt (\<lambda>x y. cmp x y \<le> 0) (take runLength a1)"
    and "x \<in> S \<Longrightarrow> y \<in> S \<Longrightarrow> cmp x y = 0 \<Longrightarrow>
         filter (\<lambda>z. z = x \<or> z = y) a1 = filter (\<lambda>z. z = x \<or> z = y) a"
proof -
  consider "a = []" | u where "a = [u]" | elementHigh elementLow rest
    where "a = elementHigh # elementLow # rest"
    by (cases a rule: remdups_adj.cases) auto
  then have "(\<forall>z. count_list a1 z = count_list a z) \<and> set a1 = set a \<and>
      sorted_wrt (\<lambda>x y. cmp x y \<le> 0) (take runLength a1) \<and>
      (x \<in> S \<and> y \<in> S \<and> cmp x y = 0 \<longrightarrow>
         filter (\<lambda>z. z = x \<or> z = y) a1 = filter (\<lambda>z. z = x \<or> z = y) a)"
  proof cases
    case 1
    with r show ?thesis by (simp add: CountAndMakeRun_def)
  next
    case 2
    with r show ?thesis by (auto simp: CountAndMakeRun_def)
  next
    case 3
    define d where "d = (cmp elementLow elementHigh < 0)"
    define n where "n = count_run cmp d elementHigh (elementLow # rest)"
    have n2: "Suc n = 2 + count_run cmp d elementLow rest"
      unfolding n_def d_def by (simp add: Let_def)
    from r have "(2 + count_run cmp d elementLow rest,
                  if d then rev (take (2 + count_run cmp d elementLow rest) a) @
                            drop (2 + count_run cmp d elementLow rest) a
                  else a) = (runLength, a1)"
      unfolding CountAndMakeRun_def 3 d_def by (simp only: list.case Let_def)
    then have "(Suc n, if d then rev (take (Suc n) a) @ drop (Suc n) a else a) = (runLength, a1)"
      unfolding n2[symmetric] .
    then have rl: "runLength = Suc n"
      and a1: "a1 = (if d then rev (take (Suc n) a) @ drop (Suc n) a else a)"
      by blast+
    have t: "take (Suc n) a = elementHigh # take n (elementLow # rest)"
      using 3 by simp
    from sub 3 have m: "elementHigh \<in> S" "set (elementLow # rest) \<subseteq> S" by auto
    have len: "length (take (Suc n) a) = Suc n"
      using count_run_le[of cmp d elementHigh "elementLow # rest"] 3 unfolding n_def by simp
    show ?thesis
    proof (cases d)
      case False
      with a1 have "a1 = a" by simp
      moreover from False have dF: "d = False" by simp
      have "sorted_wrt (\<lambda>x y. cmp x y \<le> 0) (elementHigh # take n (elementLow # rest))"
        unfolding n_def dF by (rule ascending_run_sorted[OF c m])
      then have "sorted_wrt (\<lambda>x y. cmp x y \<le> 0) (take (Suc n) a)"
        unfolding t .
      ultimately show ?thesis using rl by simp
    next
      case True
      with a1 have a1': "a1 = rev (take (Suc n) a) @ drop (Suc n) a" by simp
      from True have dT: "d = True" by simp
      have "sorted_wrt (\<lambda>x y. cmp y x < 0) (elementHigh # take n (elementLow # rest))"
        unfolding n_def dT by (rule descending_run_sorted[OF c m])
      then have ds: "sorted_wrt (\<lambda>x y. cmp y x < 0) (take (Suc n) a)"
        unfolding t .
      then have "sorted_wrt (\<lambda>x y. cmp x y < 0) (rev (take (Suc n) a))"
        by (simp add: sorted_wrt_rev)
      then have "sorted_wrt (\<lambda>x y. cmp x y \<le> 0) (rev (take (Suc n) a))"
        by (rule sorted_wrt_mono_rel[rotated]) simp
      moreover have "take runLength a1 = rev (take (Suc n) a)"
        unfolding a1' rl using len by (metis append_eq_conv_conj length_rev)
      ultimately have s: "sorted_wrt (\<lambda>x y. cmp x y \<le> 0) (take runLength a1)" by simp
      have cnt: "count_list a1 z = count_list a z" for z
      proof -
        have "count_list a1 z = count_list (take (Suc n) a @ drop (Suc n) a) z"
          unfolding a1' by (simp only: count_list_append count_list_rev)
        then show ?thesis by simp
      qed
      have st: "set a1 = set a"
      proof -
        have "set a1 = set (take (Suc n) a @ drop (Suc n) a)"
          unfolding a1' by (simp only: set_append set_rev)
        then show ?thesis by simp
      qed
      have f: "filter (\<lambda>z. z = x \<or> z = y) a1 = filter (\<lambda>z. z = x \<or> z = y) a"
        if xy: "x \<in> S" "y \<in> S" "cmp x y = 0"
      proof -
        from c xy have z: "cmp x x = 0" "cmp y y = 0" "cmp y x = 0"
          unfolding consistent_on_def by blast+
        have "filter (\<lambda>z. z = x \<or> z = y) (rev (take (Suc n) a))
              = filter (\<lambda>z. z = x \<or> z = y) (take (Suc n) a)"
          using ds
        proof (rule filter_rev_descending)
          fix u v assume "u = x \<or> u = y" "v = x \<or> v = y"
          with z xy(3) show "cmp u v = 0" by auto
        qed
        then have "filter (\<lambda>z. z = x \<or> z = y) a1
              = filter (\<lambda>z. z = x \<or> z = y) (take (Suc n) a @ drop (Suc n) a)"
          unfolding a1' by (simp only: filter_append)
        then show ?thesis by simp
      qed
      from s cnt st f show ?thesis by blast
    qed
  qed
  then show "count_list a1 z = count_list a z"
    and "set a1 = set a"
    and "sorted_wrt (\<lambda>x y. cmp x y \<le> 0) (take runLength a1)"
    and "x \<in> S \<Longrightarrow> y \<in> S \<Longrightarrow> cmp x y = 0 \<Longrightarrow>
         filter (\<lambda>z. z = x \<or> z = y) a1 = filter (\<lambda>z. z = x \<or> z = y) a"
    by blast+
qed

lemma v8_short_sort_contract: "sort_contract v8_short_sort"
  unfolding sort_contract_def
proof (intro allI impI)
  fix cmp :: "'a \<Rightarrow> 'a \<Rightarrow> int" and xs
  assume c: "consistent_on cmp (set xs)"
  show "(\<forall>x. count_list (v8_short_sort cmp xs) x = count_list xs x) \<and>
        sorted_wrt (\<lambda>x y. cmp x y \<le> 0) (v8_short_sort cmp xs) \<and>
        (\<forall>a\<in>set xs. \<forall>b\<in>set xs. cmp a b = 0 \<longrightarrow>
           filter (\<lambda>x. x = a \<or> x = b) (v8_short_sort cmp xs) = filter (\<lambda>x. x = a \<or> x = b) xs)"
  proof (cases "length xs < 2")
    case True
    then have "xs = [] \<or> (\<exists>u. xs = [u])" by (cases xs rule: remdups_adj.cases) auto
    then have "sorted_wrt (\<lambda>x y. cmp x y \<le> 0) xs" by auto
    with True show ?thesis by (simp add: v8_short_sort_def)
  next
    case False
    obtain runLength a1 where r: "CountAndMakeRun cmp xs = (runLength, a1)"
      by (cases "CountAndMakeRun cmp xs")
    with False have e: "v8_short_sort cmp xs = BinaryInsertionSort cmp runLength a1"
      by (simp add: v8_short_sort_def)
    note run = CountAndMakeRun_contract[OF c subset_refl r]
    from run(2) have sub: "set a1 \<subseteq> set xs" by simp
    note ins = BinaryInsertionSort_contract[OF c sub run(3)]
    show ?thesis
      unfolding e
    proof (intro conjI allI ballI impI)
      fix x
      from ins run(1)[of x] show "count_list (BinaryInsertionSort cmp runLength a1) x = count_list xs x"
        by simp
    next
      from ins show "sorted_wrt (\<lambda>x y. cmp x y \<le> 0) (BinaryInsertionSort cmp runLength a1)"
        by blast
    next
      fix a b assume ab: "a \<in> set xs" "b \<in> set xs" "cmp a b = 0"
      with ins have "filter (\<lambda>x. x = a \<or> x = b) (BinaryInsertionSort cmp runLength a1)
                     = filter (\<lambda>x. x = a \<or> x = b) a1"
        by blast
      with run(4)[OF ab] show "filter (\<lambda>x. x = a \<or> x = b) (BinaryInsertionSort cmp runLength a1)
                     = filter (\<lambda>x. x = a \<or> x = b) xs"
        by simp
    qed
  qed
qed

text \<open>The order of strings and the order of the numbers other than \<open>NaN\<close>.\<close>

lemma str_lt_irrefl: "\<not> str_lt s s"
  by (induction s) auto

lemma str_lt_trans: "str_lt s t \<Longrightarrow> str_lt t u \<Longrightarrow> str_lt s u"
proof (induction s t arbitrary: u rule: str_lt.induct)
  case (1)
  then show ?case by simp
next
  case (2 y ys)
  then show ?case by (cases u) auto
next
  case (3 x xs)
  then show ?case by simp
next
  case (4 x xs y ys)
  then show ?case by (cases u) auto
qed

lemma str_lt_total: "\<not> str_lt s t \<Longrightarrow> \<not> str_lt t s \<Longrightarrow> s = t"
proof (induction s t rule: str_lt.induct)
  case (4 x xs y ys)
  then have "\<not> (of_char x :: nat) < of_char y" "\<not> (of_char y :: nat) < of_char x" by auto
  then have "(of_char x :: nat) = of_char y" by simp
  then have "x = y" by simp
  with 4 show ?case by auto
qed auto

lemma num_lt_irrefl: "\<not> num_lt n n"
  by (cases n) auto

lemma num_lt_trans: "num_lt a b \<Longrightarrow> num_lt b c \<Longrightarrow> num_lt a c"
  by (cases a; cases b; cases c) auto

lemma num_lt_total: "a \<noteq> NaN \<Longrightarrow> b \<noteq> NaN \<Longrightarrow> \<not> num_lt a b \<Longrightarrow> \<not> num_lt b a \<Longrightarrow> a = b"
  by (cases a; cases b) auto

lemma js_lt_irrefl: "\<not> js_lt B v v"
  by (cases v) (simp_all add: str_lt_irrefl num_lt_irrefl)

text \<open>
  On comparable values \<open><\<close> is a strict order in which two values that are not ordered
  rank the same: \<open>rank\<close> is the string itself, or the number.
\<close>

lemma js_lt_text:
  assumes "is_text x" "is_text y"
  obtains s t where "x = Str s" "y = Str t" "js_lt B x y = str_lt s t"
  using assms by (cases x; cases y) auto

lemma js_lt_number:
  assumes "is_ordered_number x" "is_ordered_number y"
  shows "js_lt B x y = num_lt (ToNumber B x) (ToNumber B y)"
    and "ToNumber B x \<noteq> NaN" and "ToNumber B y \<noteq> NaN"
  using assms by (cases x; cases y; auto)+

lemma js_lt_trans:
  assumes "comparable V" "x \<in> V" "y \<in> V" "z \<in> V" "js_lt B x y" "js_lt B y z"
  shows "js_lt B x z"
proof -
  from assms(1) consider "\<forall>v\<in>V. is_text v" | "\<forall>v\<in>V. is_ordered_number v"
    unfolding comparable_def by blast
  then show ?thesis
  proof cases
    case 1
    with assms obtain s t u where "x = Str s" "y = Str t" "z = Str u"
      by (metis is_text.elims(2))
    with assms(5,6) str_lt_trans[of s t u] show ?thesis by simp
  next
    case 2
    with assms js_lt_number(1)[of x y B] js_lt_number(1)[of y z B] js_lt_number(1)[of x z B]
      num_lt_trans[of "ToNumber B x" "ToNumber B y" "ToNumber B z"]
    show ?thesis by blast
  qed
qed

lemma js_lt_unordered_trans:
  assumes "comparable V" "x \<in> V" "y \<in> V" "z \<in> V"
    "\<not> js_lt B x y" "\<not> js_lt B y x" "\<not> js_lt B y z" "\<not> js_lt B z y"
  shows "\<not> js_lt B x z \<and> \<not> js_lt B z x"
proof -
  from assms(1) consider "\<forall>v\<in>V. is_text v" | "\<forall>v\<in>V. is_ordered_number v"
    unfolding comparable_def by blast
  then show ?thesis
  proof cases
    case 1
    with assms obtain s t u where e: "x = Str s" "y = Str t" "z = Str u"
      by (metis is_text.elims(2))
    with assms(5-8) have "s = t" "t = u" by (auto intro: str_lt_total)
    with e show ?thesis by (simp add: str_lt_irrefl)
  next
    case 2
    with assms have n: "is_ordered_number x" "is_ordered_number y" "is_ordered_number z" by auto
    from n assms(5,6) have "ToNumber B x = ToNumber B y"
      using js_lt_number[of x y B] js_lt_number(1)[of y x B] by (auto intro: num_lt_total)
    moreover from n assms(7,8) have "ToNumber B y = ToNumber B z"
      using js_lt_number[of y z B] js_lt_number(1)[of z y B] by (auto intro: num_lt_total)
    ultimately show ?thesis
      using n js_lt_number(1)[of x z B] js_lt_number(1)[of z x B] by (simp add: num_lt_irrefl)
  qed
qed

lemma js_lt_asym:
  assumes "comparable V" "x \<in> V" "y \<in> V" "js_lt B x y"
  shows "\<not> js_lt B y x"
  using js_lt_trans[OF assms(1,2,3,2) assms(4)] js_lt_irrefl[of B x] by blast

text \<open>The comparison function by the sign of its result.\<close>

lemma compare_zero_iff:
  "compare_courses B cfg a b = 0 \<longleftrightarrow>
     \<not> js_lt B (field_val (key cfg) a) (field_val (key cfg) b) \<and>
     \<not> js_lt B (field_val (key cfg) b) (field_val (key cfg) a)"
  by (simp add: compare_courses_def Let_def)

lemma compare_neg_iff:
  "compare_courses B cfg a b < 0 \<longleftrightarrow>
     (if direction cfg = ''ascending''
      then js_lt B (field_val (key cfg) a) (field_val (key cfg) b)
      else \<not> js_lt B (field_val (key cfg) a) (field_val (key cfg) b) \<and>
           js_lt B (field_val (key cfg) b) (field_val (key cfg) a))"
  by (simp add: compare_courses_def Let_def)

lemma compare_pos_iff:
  "compare_courses B cfg a b > 0 \<longleftrightarrow>
     (if direction cfg = ''ascending''
      then \<not> js_lt B (field_val (key cfg) a) (field_val (key cfg) b) \<and>
           js_lt B (field_val (key cfg) b) (field_val (key cfg) a)
      else js_lt B (field_val (key cfg) a) (field_val (key cfg) b))"
  by (simp add: compare_courses_def Let_def)

lemma compare_consistent:
  assumes v: "comparable (field_val (key cfg) ` S)"
  shows "consistent_on (compare_courses B cfg) S"
proof -
  let ?f = "field_val (key cfg)"
  have m: "?f a \<in> ?f ` S" if "a \<in> S" for a using that by simp
  note tr = js_lt_trans[OF v m m m]
  note un = js_lt_unordered_trans[OF v m m m]
  note as = js_lt_asym[OF v m m]
  show ?thesis
    unfolding consistent_on_def
  proof (intro conjI ballI impI)
    fix a assume "a \<in> S"
    show "compare_courses B cfg a a = 0" by (simp add: compare_zero_iff js_lt_irrefl)
  next
    fix a b assume "a \<in> S" "b \<in> S" "compare_courses B cfg a b = 0"
    then show "compare_courses B cfg b a = 0" by (simp add: compare_zero_iff)
  next
    fix a b c assume s: "a \<in> S" "b \<in> S" "c \<in> S"
      and "compare_courses B cfg a b = 0 \<and> compare_courses B cfg b c = 0"
    then show "compare_courses B cfg a c = 0"
      using un[OF s, of B] by (simp add: compare_zero_iff)
  next
    fix a b c assume s: "a \<in> S" "b \<in> S" "c \<in> S"
      and h: "compare_courses B cfg a b < 0 \<and> compare_courses B cfg b c < 0"
    show "compare_courses B cfg a c < 0"
    proof (cases "direction cfg = ''ascending''")
      case True
      with h tr[OF s, of B] show ?thesis by (simp add: compare_neg_iff)
    next
      case False
      with h have "js_lt B (?f c) (?f b)" "js_lt B (?f b) (?f a)" by (simp_all add: compare_neg_iff)
      with tr[OF s(3,2,1), of B] have l: "js_lt B (?f c) (?f a)" by simp
      with as[OF s(3,1), of B] False show ?thesis by (simp add: compare_neg_iff)
    qed
  next
    fix a b c assume s: "a \<in> S" "b \<in> S" "c \<in> S"
      and h: "compare_courses B cfg a b > 0 \<and> compare_courses B cfg b c > 0"
    show "compare_courses B cfg a c > 0"
    proof (cases "direction cfg = ''ascending''")
      case False
      with h tr[OF s, of B] show ?thesis by (simp add: compare_pos_iff)
    next
      case True
      with h have "js_lt B (?f c) (?f b)" "js_lt B (?f b) (?f a)" by (simp_all add: compare_pos_iff)
      with tr[OF s(3,2,1), of B] have l: "js_lt B (?f c) (?f a)" by simp
      with as[OF s(3,1), of B] True show ?thesis by (simp add: compare_pos_iff)
    qed
  qed
qed

text \<open>The course code, the joined terms and the joined credits are strings.\<close>

lemma text_keys_comparable:
  "k = ''Course_Code'' \<or> k = ''Terms'' \<or> k = ''Credits'' \<Longrightarrow> comparable (field_val k ` S)"
  by (auto simp: comparable_def field_val_def)

lemma filter_eq_replicate: "filter (\<lambda>x. x = a) xs = replicate (count_list xs a) a"
  by (induction xs) auto

lemma filter_pair_absent:
  assumes "\<And>x. count_list ys x = count_list xs x" "b \<notin> set xs"
  shows "filter (\<lambda>x. x = a \<or> x = b) ys = filter (\<lambda>x. x = a \<or> x = b) xs"
    and "filter (\<lambda>x. x = b \<or> x = a) ys = filter (\<lambda>x. x = b \<or> x = a) xs"
proof -
  from assms have "count_list ys b = 0" by (simp add: count_list_0_iff)
  then have "b \<notin> set ys" by (simp add: count_list_0_iff)
  with assms(2) have "filter (\<lambda>x. x = a \<or> x = b) ys = filter (\<lambda>x. x = a) ys"
    "filter (\<lambda>x. x = a \<or> x = b) xs = filter (\<lambda>x. x = a) xs"
    by (auto intro: filter_cong)
  with assms(1) show "filter (\<lambda>x. x = a \<or> x = b) ys = filter (\<lambda>x. x = a \<or> x = b) xs"
    by (simp add: filter_eq_replicate)
  then show "filter (\<lambda>x. x = b \<or> x = a) ys = filter (\<lambda>x. x = b \<or> x = a) xs"
    by (simp add: disj_commute)
qed

lemma contract_stable_pair:
  assumes s: "sort_contract sortfn" and c: "consistent_on cmp (set xs)" and z: "cmp a b = 0"
  shows "filter (\<lambda>x. x = a \<or> x = b) (sortfn cmp xs) = filter (\<lambda>x. x = a \<or> x = b) xs"
proof -
  from s c have cnt: "\<And>x. count_list (sortfn cmp xs) x = count_list xs x"
    unfolding sort_contract_def by blast
  show ?thesis
  proof (cases "a \<in> set xs \<and> b \<in> set xs")
    case True
    with s c z show ?thesis unfolding sort_contract_def by blast
  next
    case False
    then consider "b \<notin> set xs" | "a \<notin> set xs" by blast
    then show ?thesis
    proof cases
      case 1
      with cnt show ?thesis by (intro filter_pair_absent(1))
    next
      case 2
      with cnt show ?thesis by (intro filter_pair_absent(2))
    qed
  qed
qed

text \<open>
  Claim C8, amended. \<open>sortedCourses\<close> leaves every array of the heap as it was, the filtered
  list among them, and returns a new array. Two courses compare equal exactly when the
  value of neither is less than the value of the other under the sort key. When the sort
  of the engine meets the contract of the language and the values of the filtered courses
  under the sort key are comparable (all strings, or all numbers other than \<open>NaN\<close>, with
  \<open>null\<close> as 0), then for either direction the new array holds the courses of the filtered
  list, each as often as there, it is sorted, and the courses equal to one or the other of
  two courses that compare equal stand in it in the order they had in the filtered list.
  The course code, the joined terms and the joined credits are always comparable. A rating
  can be \<open>NaN\<close>, and then the order is the engine's.
\<close>

theorem sortedCourses_stable_on_comparable:
  "filteredCourses < length h \<longrightarrow>
     snd (sortedCourses B sortfn cfg h filteredCourses) = length h
     \<and> length (fst (sortedCourses B sortfn cfg h filteredCourses)) = length h + 1
     \<and> (\<forall>r<length h. fst (sortedCourses B sortfn cfg h filteredCourses) ! r = h ! r)
     \<and> fst (sortedCourses B sortfn cfg h filteredCourses) ! filteredCourses = h ! filteredCourses
     \<and> ((compare_courses B cfg a b = 0) =
          (\<not> js_lt B (field_val (key cfg) a) (field_val (key cfg) b) \<and>
           \<not> js_lt B (field_val (key cfg) b) (field_val (key cfg) a)))
     \<and> (key cfg = ''Course_Code'' \<or> key cfg = ''Terms'' \<or> key cfg = ''Credits'' \<longrightarrow>
          comparable (field_val (key cfg) ` set (h ! filteredCourses)))
     \<and> (sort_contract sortfn \<and> comparable (field_val (key cfg) ` set (h ! filteredCourses)) \<longrightarrow>
          (\<forall>c. count_list (fst (sortedCourses B sortfn cfg h filteredCourses)
                            ! snd (sortedCourses B sortfn cfg h filteredCourses)) c
                = count_list (h ! filteredCourses) c)
          \<and> sorted_wrt (\<lambda>x y. compare_courses B cfg x y \<le> 0)
               (fst (sortedCourses B sortfn cfg h filteredCourses)
                ! snd (sortedCourses B sortfn cfg h filteredCourses))
          \<and> (compare_courses B cfg a b = 0 \<longrightarrow>
               filter (\<lambda>c. c = a \<or> c = b)
                 (fst (sortedCourses B sortfn cfg h filteredCourses)
                  ! snd (sortedCourses B sortfn cfg h filteredCourses))
               = filter (\<lambda>c. c = a \<or> c = b) (h ! filteredCourses)))"
proof
  assume f: "filteredCourses < length h"
  let ?res = "fst (sortedCourses B sortfn cfg h filteredCourses)
                ! snd (sortedCourses B sortfn cfg h filteredCourses)"
  have res: "?res = sortfn (compare_courses B cfg) (h ! filteredCourses)"
    using f by (simp add: sortedCourses_def Let_def nth_append)
  have old: "fst (sortedCourses B sortfn cfg h filteredCourses) ! r = h ! r" if "r < length h" for r
    using that by (simp add: sortedCourses_def Let_def nth_append)
  have 1: "snd (sortedCourses B sortfn cfg h filteredCourses) = length h"
    by (simp add: sortedCourses_def Let_def)
  have 2: "length (fst (sortedCourses B sortfn cfg h filteredCourses)) = length h + 1"
    by (simp add: sortedCourses_def Let_def)
  have 3: "\<forall>r<length h. fst (sortedCourses B sortfn cfg h filteredCourses) ! r = h ! r"
    using old by blast
  have 4: "fst (sortedCourses B sortfn cfg h filteredCourses) ! filteredCourses = h ! filteredCourses"
    using old f by blast
  have 5: "(compare_courses B cfg a b = 0) =
          (\<not> js_lt B (field_val (key cfg) a) (field_val (key cfg) b) \<and>
           \<not> js_lt B (field_val (key cfg) b) (field_val (key cfg) a))"
    by (rule compare_zero_iff)
  have 6: "key cfg = ''Course_Code'' \<or> key cfg = ''Terms'' \<or> key cfg = ''Credits'' \<longrightarrow>
          comparable (field_val (key cfg) ` set (h ! filteredCourses))"
    using text_keys_comparable by blast
  have 7: "(\<forall>c. count_list ?res c = count_list (h ! filteredCourses) c)
          \<and> sorted_wrt (\<lambda>x y. compare_courses B cfg x y \<le> 0) ?res
          \<and> (compare_courses B cfg a b = 0 \<longrightarrow>
               filter (\<lambda>c. c = a \<or> c = b) ?res = filter (\<lambda>c. c = a \<or> c = b) (h ! filteredCourses))"
    if s: "sort_contract sortfn"
      and v: "comparable (field_val (key cfg) ` set (h ! filteredCourses))"
  proof -
    from v have c: "consistent_on (compare_courses B cfg) (set (h ! filteredCourses))"
      by (rule compare_consistent)
    from s c have "\<forall>x. count_list (sortfn (compare_courses B cfg) (h ! filteredCourses)) x
                       = count_list (h ! filteredCourses) x"
      and "sorted_wrt (\<lambda>x y. compare_courses B cfg x y \<le> 0)
             (sortfn (compare_courses B cfg) (h ! filteredCourses))"
      unfolding sort_contract_def by blast+
    moreover have "filter (\<lambda>c. c = a \<or> c = b) (sortfn (compare_courses B cfg) (h ! filteredCourses))
                   = filter (\<lambda>c. c = a \<or> c = b) (h ! filteredCourses)"
      if "compare_courses B cfg a b = 0"
      using s c that by (rule contract_stable_pair)
    ultimately show ?thesis unfolding res by blast
  qed
  from 1 2 3 4 5 6 7
  show "snd (sortedCourses B sortfn cfg h filteredCourses) = length h
     \<and> length (fst (sortedCourses B sortfn cfg h filteredCourses)) = length h + 1
     \<and> (\<forall>r<length h. fst (sortedCourses B sortfn cfg h filteredCourses) ! r = h ! r)
     \<and> fst (sortedCourses B sortfn cfg h filteredCourses) ! filteredCourses = h ! filteredCourses
     \<and> ((compare_courses B cfg a b = 0) =
          (\<not> js_lt B (field_val (key cfg) a) (field_val (key cfg) b) \<and>
           \<not> js_lt B (field_val (key cfg) b) (field_val (key cfg) a)))
     \<and> (key cfg = ''Course_Code'' \<or> key cfg = ''Terms'' \<or> key cfg = ''Credits'' \<longrightarrow>
          comparable (field_val (key cfg) ` set (h ! filteredCourses)))
     \<and> (sort_contract sortfn \<and> comparable (field_val (key cfg) ` set (h ! filteredCourses)) \<longrightarrow>
          (\<forall>c. count_list ?res c = count_list (h ! filteredCourses) c)
          \<and> sorted_wrt (\<lambda>x y. compare_courses B cfg x y \<le> 0) ?res
          \<and> (compare_courses B cfg a b = 0 \<longrightarrow>
               filter (\<lambda>c. c = a \<or> c = b) ?res
               = filter (\<lambda>c. c = a \<or> c = b) (h ! filteredCourses)))"
    by blast
qed

lemma example_filtered_comparable:
  "comparable (field_val ''Average_Price'' ` set example_filtered)"
  by (simp add: comparable_def field_val_def example_filtered_def example_course_def)

text \<open>C8 on the sample list, sorted by price in ascending order by the sort of the V8
  engine, which meets the contract: the prices are comparable, the two courses of price
  200 keep their order, the result is sorted, and the list that was sorted is unchanged.\<close>

theorem sortedCourses_stable_on_comparable_witness:
  "sort_contract (v8_short_sort :: course_sort)
   \<and> comparable (field_val ''Average_Price'' ` set example_filtered)
   \<and> filter (\<lambda>c. c = example_course ''CCCC-3000'' 200 [] \<or> c = example_course ''AAAA-1000'' 200 [])
     (fst (sortedCourses decimal_builtins v8_short_sort
             \<lparr>key = ''Average_Price'', direction = ''ascending''\<rparr> [example_filtered] 0)
      ! snd (sortedCourses decimal_builtins v8_short_sort
             \<lparr>key = ''Average_Price'', direction = ''ascending''\<rparr> [example_filtered] 0))
   = [example_course ''CCCC-3000'' 200 [], example_course ''AAAA-1000'' 200 []]
   \<and> sorted_wrt (\<lambda>x y. compare_courses decimal_builtins
                          \<lparr>key = ''Average_Price'', direction = ''ascending''\<rparr> x y \<le> 0)
       (fst (sortedCourses decimal_builtins v8_short_sort
               \<lparr>key = ''Average_Price'', direction = ''ascending''\<rparr> [example_filtered] 0)
        ! snd (sortedCourses decimal_builtins v8_short_sort
               \<lparr>key = ''Average_Price'', direction = ''ascending''\<rparr> [example_filtered] 0))
   \<and> fst (sortedCourses decimal_builtins v8_short_sort
             \<lparr>key = ''Average_Price'', direction = ''ascending''\<rparr> [example_filtered] 0) ! 0
     = example_filtered"
proof -
  let ?cfg = "\<lparr>key = ''Average_Price'', direction = ''ascending''\<rparr>"
  let ?a = "example_course ''CCCC-3000'' 200 []" and ?b = "example_course ''AAAA-1000'' 200 []"
  let ?s = "v8_short_sort :: course_sort"
  have z: "compare_courses decimal_builtins ?cfg ?a ?b = 0"
    by (simp add: compare_courses_def field_val_def example_course_def)
  have l: "(0::nat) < length [example_filtered]" by simp
  have e: "filter (\<lambda>c. c = ?a \<or> c = ?b) ([example_filtered] ! 0) = [?a, ?b]"
    by (simp add: example_filtered_def example_course_def)
  have s: "sort_contract ?s" by (rule v8_short_sort_contract)
  have v: "comparable (field_val (key ?cfg) ` set ([example_filtered] ! 0))"
    using example_filtered_comparable by simp
  note t = sortedCourses_stable_on_comparable[where B = decimal_builtins and cfg = ?cfg
      and sortfn = ?s and h = "[example_filtered]" and filteredCourses = 0 and a = ?a and b = ?b]
  from t l z s v have "filter (\<lambda>c. c = ?a \<or> c = ?b)
          (fst (sortedCourses decimal_builtins ?s ?cfg [example_filtered] 0)
           ! snd (sortedCourses decimal_builtins ?s ?cfg [example_filtered] 0))
        = filter (\<lambda>c. c = ?a \<or> c = ?b) ([example_filtered] ! 0)"
    by blast
  moreover from t l s v have "sorted_wrt (\<lambda>x y. compare_courses decimal_builtins ?cfg x y \<le> 0)
          (fst (sortedCourses decimal_builtins ?s ?cfg [example_filtered] 0)
           ! snd (sortedCourses decimal_builtins ?s ?cfg [example_filtered] 0))"
    by blast
  moreover from t l have "fst (sortedCourses decimal_builtins ?s ?cfg [example_filtered] 0) ! 0
        = [example_filtered] ! 0"
    by blast
  ultimately show ?thesis using e s example_filtered_comparable by simp
qed

lemma example_rated_v8:
  "v8_short_sort (compare_courses decimal_builtins \<lparr>key = ''course_rating'', direction = ''ascending''\<rparr>)
     example_rated
   = [example_rated_course ''BBBB-2000'' (Fin 1), example_rated_course ''DDDD-4000'' (Fin 2),
      example_rated_course ''AAAA-1000'' (Fin 3), example_rated_course ''CCCC-3000'' NaN]"
  by code_simp

text \<open>
  Claim C8 as stated fails for a rating key. Of four courses with the course ratings 3, 1,
  \<open>NaN\<close> and 2 the third and the fourth compare equal, since no comparison with \<open>NaN\<close> holds,
  and the sort of the V8 engine returns the courses rated 1, 2, 3 and \<open>NaN\<close>: the fourth
  before the third.
\<close>

theorem nan_rating_counterexample:
  "compare_courses decimal_builtins \<lparr>key = ''course_rating'', direction = ''ascending''\<rparr>
     (example_rated_course ''CCCC-3000'' NaN) (example_rated_course ''DDDD-4000'' (Fin 2)) = 0
   \<and> filter (\<lambda>c. c = example_rated_course ''CCCC-3000'' NaN
                \<or> c = example_rated_course ''DDDD-4000'' (Fin 2)) example_rated
     = [example_rated_course ''CCCC-3000'' NaN, example_rated_course ''DDDD-4000'' (Fin 2)]
   \<and> filter (\<lambda>c. c = example_rated_course ''CCCC-3000'' NaN
                \<or> c = example_rated_course ''DDDD-4000'' (Fin 2))
       (fst (sortedCourses decimal_builtins v8_short_sort
               \<lparr>key = ''course_rating'', direction = ''ascending''\<rparr> [example_rated] 0)
        ! snd (sortedCourses decimal_builtins v8_short_sort
               \<lparr>key = ''course_rating'', direction = ''ascending''\<rparr> [example_rated] 0))
     = [example_rated_course ''DDDD-4000'' (Fin 2), example_rated_course ''CCCC-3000'' NaN]"
proof -
  have "fst (sortedCourses decimal_builtins v8_short_sort
               \<lparr>key = ''course_rating'', direction = ''ascending''\<rparr> [example_rated] 0)
        ! snd (sortedCourses decimal_builtins v8_short_sort
               \<lparr>key = ''course_rating'', direction = ''ascending''\<rparr> [example_rated] 0)
      = v8_short_sort (compare_courses decimal_builtins
               \<lparr>key = ''course_rating'', direction = ''ascending''\<rparr>) example_rated"
    by (simp add: sortedCourses_def Let_def)
  then show ?thesis
    unfolding example_rated_v8
    by (simp add: compare_courses_def field_val_def example_rated_def example_rated_course_def
        example_course_def)
qed

section \<open>Facts that support the model\<close>

text \<open>A string that contains the separator splits into at least two parts: the last case
  of the destructuring in \<open>parseTime\<close> is not reached.\<close>

lemma split_on_two:
  "sep \<in> set s \<Longrightarrow> \<exists>a b rest. split_on sep s = a # b # rest"
proof (induction s)
  case Nil
  then show ?case by simp
next
  case (Cons c s)
  show ?case
  proof (cases "c = sep")
    case True
    obtain p ps where "split_on sep s = p # ps"
      using split_on_not_Nil by (cases "split_on sep s") auto
    with True show ?thesis by simp
  next
    case False
    with Cons obtain a b rest where "split_on sep s = a # b # rest" by auto
    with False show ?thesis by simp
  qed
qed

lemma parseTime_split:
  "CHR ''-'' \<in> set timeStr \<Longrightarrow>
   \<exists>startTime endTime rest.
      split_on CHR ''-'' timeStr = startTime # endTime # rest \<and>
      parseTime timeStr = (convertToMinutes startTime, convertToMinutes endTime)"
proof -
  assume a: "CHR ''-'' \<in> set timeStr"
  then obtain st en rest where s: "split_on CHR ''-'' timeStr = st # en # rest"
    using split_on_two by blast
  from a have "timeStr \<noteq> []" by auto
  with a s show ?thesis by (simp add: parseTime_def)
qed

text \<open>A course code has no lower case letter, while every name inherited from
  \<open>Object.prototype\<close> has one: the lookups \<open>acc[code]\<close> and \<open>priceMap[code]\<close> never find an
  inherited property.\<close>

lemma upper_char_not_lower: "\<not> is_lower (upper_char c)"
  by (auto simp: is_lower_def upper_char_def)

lemma toUpperCase_not_lower: "c \<in> set (toUpperCase s) \<Longrightarrow> \<not> is_lower c"
  by (auto simp: toUpperCase_def upper_char_not_lower)

lemma digit_not_lower: "is_digit c \<Longrightarrow> \<not> is_lower c"
  by (auto simp: is_digit_def is_lower_def)

lemma hyphen_not_lower: "\<not> is_lower CHR ''-''"
  by (simp add: is_lower_def)

lemma code_not_lower:
  assumes "c \<in> set (getBaseCourseCode B raw)"
  shows "\<not> is_lower c"
proof (cases "truthy raw")
  case False
  with assms show ?thesis by (simp add: getBaseCourseCode_def)
next
  case True
  show ?thesis
  proof (cases "code_match (ToString B raw)")
    case None
    define str where "str = toUpperCase (filter is_alnum (ToString B raw))"
    from assms True None have "c \<in> set (take 4 str) \<or> c = CHR ''-'' \<or> c \<in> set (drop 4 str) \<or>
        c \<in> set (drop 3 str) \<or> c \<in> set str"
      by (auto simp: getBaseCourseCode_def Let_def str_def split: if_splits)
    then have "c = CHR ''-'' \<or> c \<in> set str"
      by (auto dest: in_set_takeD in_set_dropD)
    then show ?thesis
      using toUpperCase_not_lower[of c "filter is_alnum (ToString B raw)"] hyphen_not_lower
      unfolding str_def by blast
  next
    case (Some r)
    obtain d n where r: "r = (d, n)" by (cases r)
    from code_match_sound[OF Some] r obtain rest where "code_match_at rest = Some (d, n)" by auto
    from code_match_at_sound[OF this] have n: "list_all is_digit n" by (auto simp: code_pattern_def)
    from assms True Some r have "c \<in> set (toUpperCase d) \<or> c = CHR ''-'' \<or> c \<in> set n"
      by (auto simp: getBaseCourseCode_def)
    then show ?thesis
      using toUpperCase_not_lower[of c d] n digit_not_lower[of c] hyphen_not_lower
      unfolding list_all_iff by blast
  qed
qed

lemma code_not_inherited: "getBaseCourseCode B raw \<notin> set prototype_names"
proof
  assume a: "getBaseCourseCode B raw \<in> set prototype_names"
  have "\<forall>nm\<in>set prototype_names. \<exists>c\<in>set nm. is_lower c"
    by (simp add: prototype_names_def is_lower_def)
  with a obtain c where "c \<in> set (getBaseCourseCode B raw)" "is_lower c" by blast
  with code_not_lower show False by blast
qed

end
